theory Spec2Isabelle
  imports Main
begin

section \<open>Data model\<close>

text \<open>
  Go strings are byte strings: \<^typ>\<open>string\<close> (a list of 8-bit characters) holds the
  UTF-8 bytes. Go's \<open>int\<close> is taken to be 64 bits wide (every 64-bit platform).
\<close>

text \<open>
  \<open>type Paragraph struct { Parent *SubArticle; Number int; Text string; References []string }\<close>.
  The pointer \<open>Parent\<close> is an optional address; the crawl never sets it.
\<close>

record Paragraph =
  Parent :: "nat option"
  Number :: int
  Text :: string
  References :: "string list"

text \<open>The zero value of the struct, which Go yields for a missing map key.\<close>

definition zero_Paragraph :: Paragraph where
  "zero_Paragraph = \<lparr>Parent = None, Number = 0, Text = [], References = []\<rparr>"

text \<open>
  Errors as values. \<open>Exit n\<close> is \<open>os.Exit(n)\<close>; the others are the \<open>error\<close> results of
  the standard library (\<open>net/url\<close>, \<open>strconv\<close>, and the network, file and HTML readers).
\<close>

datatype error = Exit nat | UrlError | NumError | IOError

section \<open>Package strings\<close>

text \<open>The functions of Go's \<open>strings\<close> package the program calls, on byte strings.\<close>

definition HasPrefix :: "string \<Rightarrow> string \<Rightarrow> bool" where
  "HasPrefix s pre = (take (length pre) s = pre)"

definition HasSuffix :: "string \<Rightarrow> string \<Rightarrow> bool" where
  "HasSuffix s suf = (length suf \<le> length s \<and> drop (length s - length suf) s = suf)"

definition is_upper :: "char \<Rightarrow> bool" where
  "is_upper c = (c \<in> set ''ABCDEFGHIJKLMNOPQRSTUVWXYZ'')"

definition is_digit :: "char \<Rightarrow> bool" where
  "is_digit c = (c \<in> set ''0123456789'')"

definition is_lower :: "char \<Rightarrow> bool" where
  "is_lower c = (c \<in> set ''abcdefghijklmnopqrstuvwxyz'')"

text \<open>
  \<open>strings.ToLower\<close> on the ASCII letters. On other runes Go may change bytes, but
  never into an ASCII \<open>h\<close>, \<open>t\<close> or \<open>p\<close> (the only ASCII results of lower-casing a
  non-ASCII rune are \<open>i\<close> and \<open>k\<close>), so the prefix test of \<open>vaticanURL\<close> is the same.
\<close>

definition lower_char :: "char \<Rightarrow> char" where
  "lower_char c = (if is_upper c then char_of (of_char c + (32::nat)) else c)"

definition ToLower :: "string \<Rightarrow> string" where
  "ToLower s = map lower_char s"

text \<open>\<open>strings.ReplaceAll(s, old, new)\<close> for one-byte \<open>old\<close> and \<open>new\<close>.\<close>

definition ReplaceAll :: "string \<Rightarrow> char \<Rightarrow> char \<Rightarrow> string" where
  "ReplaceAll s old new = map (\<lambda>c. if c = old then new else c) s"

text \<open>\<open>strings.TrimRight(s, cutset)\<close>: drop every trailing byte that is in the cutset.\<close>

definition TrimRight :: "string \<Rightarrow> string \<Rightarrow> string" where
  "TrimRight s cutset = rev (dropWhile (\<lambda>c. c \<in> set cutset) (rev s))"

text \<open>\<open>strings.Cut(s, sep)\<close> for a one-byte separator: before, after, found.\<close>

definition Cut :: "string \<Rightarrow> char \<Rightarrow> string \<times> string \<times> bool" where
  "Cut s sep =
     (if sep \<in> set s
      then (takeWhile (\<lambda>c. c \<noteq> sep) s, tl (dropWhile (\<lambda>c. c \<noteq> sep) s), True)
      else (s, [], False))"

text \<open>\<open>strings.Split(s, sep)\<close> for a one-byte separator.\<close>

fun Split :: "string \<Rightarrow> char \<Rightarrow> string list" where
  "Split [] sep = [[]]"
| "Split (c # s) sep =
     (if c = sep then [] # Split s sep
      else (case Split s sep of [] \<Rightarrow> [[c]] | e # es \<Rightarrow> (c # e) # es))"

text \<open>\<open>strings.Join(elems, "/")\<close>\<close>

fun join_slash :: "string list \<Rightarrow> string" where
  "join_slash [] = []"
| "join_slash [e] = e"
| "join_slash (e # es) = e @ CHR ''/'' # join_slash es"

section \<open>Packages path and path/filepath\<close>

text \<open>
  \<open>path.Clean\<close>, element by element as its documentation states it: empty elements
  and \<open>.\<close> are dropped; \<open>..\<close> removes the element before it, is dropped at the root of a
  rooted path, and is kept at the start of a relative one. \<open>out\<close> is the output so far.
\<close>

fun clean_elems :: "bool \<Rightarrow> string list \<Rightarrow> string list \<Rightarrow> string list" where
  "clean_elems rooted [] out = out"
| "clean_elems rooted (e # es) out =
     (if e = [] \<or> e = ''.'' then clean_elems rooted es out
      else if e = ''..'' then
        (if out \<noteq> [] \<and> last out \<noteq> ''..'' then clean_elems rooted es (butlast out)
         else if rooted then clean_elems rooted es out
         else clean_elems rooted es (out @ [''..'']))
      else clean_elems rooted es (out @ [e]))"

definition path_Clean :: "string \<Rightarrow> string" where
  "path_Clean p =
     (if p = [] then ''.''
      else let rooted = (hd p = CHR ''/'');
               out = clean_elems rooted (Split p CHR ''/'') []
           in if rooted then CHR ''/'' # join_slash out
              else if out = [] then ''.'' else join_slash out)"

text \<open>
  \<open>path.Join(elem...)\<close>: the empty string when every element is empty; otherwise the
  elements from the first non-empty one on, joined by slashes and cleaned.
\<close>

definition path_Join :: "string list \<Rightarrow> string" where
  "path_Join elem =
     (if concat elem = [] then []
      else path_Clean (join_slash (dropWhile (\<lambda>e. e = []) elem)))"

text \<open>
  \<open>filepath.Clean\<close> on a Unix system, where the separator is the slash and there is
  no volume name: the same function.
\<close>

definition filepath_Clean :: "string \<Rightarrow> string" where
  "filepath_Clean p = path_Clean p"

section \<open>strconv.Atoi and the leading-integer pattern\<close>

definition digit_val :: "char \<Rightarrow> int" where
  "digit_val c = int (of_char c) - 48"

text \<open>
  The digit loop of \<open>strconv.Atoi\<close>: \<open>n = n*10 + int(ch - '0')\<close>, a byte that is not a
  digit is a syntax error.
\<close>

fun atoi_digits :: "string \<Rightarrow> int \<Rightarrow> int option" where
  "atoi_digits [] n = Some n"
| "atoi_digits (ch # s) n =
     (if is_digit ch then atoi_digits s (n * 10 + digit_val ch) else None)"

definition max_int :: int where
  "max_int = 2 ^ 63 - 1"

definition min_int :: int where
  "min_int = - (2 ^ 63)"

text \<open>
  \<open>strconv.Atoi\<close>: an optional sign, then one or more decimal digits; the value must fit
  a 64-bit \<open>int\<close>. Syntax and range errors are one error value here: the program only
  tests \<open>err != nil\<close>.
\<close>

definition Atoi :: "string \<Rightarrow> error + int" where
  "Atoi s =
     (let neg = (s \<noteq> [] \<and> hd s = CHR ''-'');
          ds = (if s \<noteq> [] \<and> (hd s = CHR ''-'' \<or> hd s = CHR ''+'') then tl s else s)
      in if ds = [] then Inl NumError
         else case atoi_digits ds 0 of
                None \<Rightarrow> Inl NumError
              | Some n \<Rightarrow>
                  if neg then (if min_int \<le> - n then Inr (- n) else Inl NumError)
                  else (if n \<le> max_int then Inr n else Inl NumError))"

text \<open>
  \<open>regexp.MustCompile(`^(\d+)`).FindStringSubmatch(str)\<close>: \<open>\d\<close> is the ASCII class
  \<open>[0-9]\<close>, \<open>+\<close> is greedy and \<open>^\<close> anchors at the start of the text, so a match is the
  longest run of digits the string starts with; the result holds the whole match and
  the group, and is empty (nil) without a match.
\<close>

definition FindStringSubmatch_digits :: "string \<Rightarrow> string list" where
  "FindStringSubmatch_digits str =
     (let ds = takeWhile is_digit str in if ds = [] then [] else [ds, ds])"

text \<open>\<open>func extractNumber(str string) (int, bool)\<close>\<close>

definition extractNumber :: "string \<Rightarrow> int \<times> bool" where
  "extractNumber str =
     (let matches = FindStringSubmatch_digits str
      in if length matches > 1 then
           (case Atoi (matches ! 1) of
              Inl err \<Rightarrow> (0, False)
            | Inr num \<Rightarrow> (num, True))
         else (0, False))"

section \<open>Package net/url\<close>

text \<open>
  \<open>url.Parse\<close>, \<open>URL.ResolveReference\<close> and \<open>URL.String\<close> of Go's standard library
  (as of Go 1.21), on the fields of \<open>url.URL\<close>.
\<close>

record Userinfo =
  username :: string
  password :: string
  passwordSet :: bool

record URL =
  Scheme :: string
  Opaque :: string
  User :: "Userinfo option"
  Host :: string
  Path :: string
  RawPath :: string
  OmitHost :: bool
  ForceQuery :: bool
  RawQuery :: string
  Fragment :: string
  RawFragment :: string

definition empty_URL :: URL where
  "empty_URL = \<lparr>Scheme = [], Opaque = [], User = None, Host = [], Path = [], RawPath = [],
     OmitHost = False, ForceQuery = False, RawQuery = [], Fragment = [], RawFragment = []\<rparr>"

datatype encoding =
  encodePath | encodePathSegment | encodeHost | encodeZone
  | encodeUserPassword | encodeQueryComponent | encodeFragment

definition is_alnum :: "char \<Rightarrow> bool" where
  "is_alnum c = (is_lower c \<or> is_upper c \<or> is_digit c)"

definition host_subdelims :: string where
  "host_subdelims = ''!$&()*+,;=:[]<>'' @ [CHR 0x27, CHR 0x22]"

text \<open>\<open>func shouldEscape(c byte, mode encoding) bool\<close>\<close>

definition shouldEscape :: "char \<Rightarrow> encoding \<Rightarrow> bool" where
  "shouldEscape c mode =
     (if is_alnum c then False
      else if (mode = encodeHost \<or> mode = encodeZone) \<and> c \<in> set host_subdelims then False
      else if c \<in> set ''-_.~'' then False
      else if c \<in> set ''$&+,/:;=?@'' \<and> mode = encodePath then c = CHR ''?''
      else if c \<in> set ''$&+,/:;=?@'' \<and> mode = encodePathSegment then c \<in> set ''/;,?''
      else if c \<in> set ''$&+,/:;=?@'' \<and> mode = encodeUserPassword then c \<in> set ''@/?:''
      else if c \<in> set ''$&+,/:;=?@'' \<and> mode = encodeQueryComponent then True
      else if c \<in> set ''$&+,/:;=?@'' \<and> mode = encodeFragment then False
      else if mode = encodeFragment \<and> c \<in> set ''!()*'' then False
      else True)"

definition ishex :: "char \<Rightarrow> bool" where
  "ishex c = (c \<in> set ''0123456789abcdefABCDEF'')"

definition unhex :: "char \<Rightarrow> nat" where
  "unhex c =
     (if is_digit c then of_char c - 48
      else if c \<in> set ''abcdef'' then of_char c - 97 + 10
      else if c \<in> set ''ABCDEF'' then of_char c - 65 + 10
      else 0)"

text \<open>
  The checking pass of \<open>unescape(s, mode)\<close>: every \<open>%\<close> is followed by two hex digits;
  a host may only escape non-ASCII bytes (and \<open>%25\<close>), a zone only bytes a host may
  hold, and an ASCII byte of a host that would need escaping is an error.
\<close>

fun unescape_ok :: "encoding \<Rightarrow> string \<Rightarrow> bool" where
  "unescape_ok mode [] = True"
| "unescape_ok mode (c # s) =
     (if c = CHR ''%'' then
        (case s of
           h1 # h2 # rest \<Rightarrow>
             ishex h1 \<and> ishex h2
             \<and> \<not> (mode = encodeHost \<and> unhex h1 < 8 \<and> [h1, h2] \<noteq> ''25'')
             \<and> \<not> (mode = encodeZone \<and> [h1, h2] \<noteq> ''25''
                    \<and> char_of (unhex h1 * 16 + unhex h2) \<noteq> CHR '' ''
                    \<and> shouldEscape (char_of (unhex h1 * 16 + unhex h2)) encodeHost)
             \<and> unescape_ok mode rest
         | _ \<Rightarrow> False)
      else \<not> ((mode = encodeHost \<or> mode = encodeZone) \<and> (of_char c :: nat) < 128
                \<and> shouldEscape c encodeHost)
           \<and> unescape_ok mode s)"

text \<open>The decoding pass of \<open>unescape\<close>, on a string that passed the check.\<close>

fun unescape_bytes :: "encoding \<Rightarrow> string \<Rightarrow> string" where
  "unescape_bytes mode [] = []"
| "unescape_bytes mode (c # s) =
     (if c = CHR ''%'' then
        (case s of
           h1 # h2 # rest \<Rightarrow> char_of (unhex h1 * 16 + unhex h2) # unescape_bytes mode rest
         | _ \<Rightarrow> c # unescape_bytes mode s)
      else if c = CHR ''+'' \<and> mode = encodeQueryComponent then CHR '' '' # unescape_bytes mode s
      else c # unescape_bytes mode s)"

definition unescape :: "string \<Rightarrow> encoding \<Rightarrow> error + string" where
  "unescape s mode = (if unescape_ok mode s then Inr (unescape_bytes mode s) else Inl UrlError)"

definition upperhex :: "nat \<Rightarrow> char" where
  "upperhex n = ''0123456789ABCDEF'' ! (n mod 16)"

text \<open>\<open>func escape(s string, mode encoding) string\<close>\<close>

definition escape_byte :: "encoding \<Rightarrow> char \<Rightarrow> string" where
  "escape_byte mode c =
     (if shouldEscape c mode then
        (if c = CHR '' '' \<and> mode = encodeQueryComponent then ''+''
         else [CHR ''%'', upperhex (of_char c div 16), upperhex (of_char c mod 16)])
      else [c])"

definition escape :: "string \<Rightarrow> encoding \<Rightarrow> string" where
  "escape s mode = concat (map (escape_byte mode) s)"

text \<open>\<open>func validEncoded(s string, mode encoding) bool\<close>\<close>

definition validEncoded :: "string \<Rightarrow> encoding \<Rightarrow> bool" where
  "validEncoded s mode =
     list_all (\<lambda>c. c \<in> set ''!$&()*+,;=:@[]%'' \<or> c = CHR 0x27 \<or> \<not> shouldEscape c mode) s"

text \<open>\<open>strings.LastIndexByte\<close> and \<open>strings.Index\<close>, \<open>None\<close> for \<open>-1\<close>.\<close>

definition LastIndex :: "string \<Rightarrow> char \<Rightarrow> nat option" where
  "LastIndex s c =
     (if c \<in> set s then Some (length s - 1 - length (takeWhile (\<lambda>x. x \<noteq> c) (rev s))) else None)"

fun Index :: "string \<Rightarrow> string \<Rightarrow> nat option" where
  "Index [] sub = (if sub = [] then Some 0 else None)"
| "Index (c # s) sub =
     (if HasPrefix (c # s) sub then Some 0 else map_option Suc (Index s sub))"

definition stringContainsCTLByte :: "string \<Rightarrow> bool" where
  "stringContainsCTLByte s = list_ex (\<lambda>b. (of_char b :: nat) < 32 \<or> of_char b = (127::nat)) s"

text \<open>
  \<open>func getScheme(rawURL string) (scheme, path string, err error)\<close>; \<open>acc\<close> is
  \<open>rawURL[:i]\<close> and the second argument \<open>rawURL[i:]\<close>.
\<close>

fun getScheme_from :: "string \<Rightarrow> string \<Rightarrow> string \<Rightarrow> error + (string \<times> string)" where
  "getScheme_from rawURL acc [] = Inr ([], rawURL)"
| "getScheme_from rawURL acc (c # s) =
     (if is_lower c \<or> is_upper c then getScheme_from rawURL (acc @ [c]) s
      else if is_digit c \<or> c \<in> set ''+-.'' then
        (if acc = [] then Inr ([], rawURL) else getScheme_from rawURL (acc @ [c]) s)
      else if c = CHR '':'' then
        (if acc = [] then Inl UrlError else Inr (acc, s))
      else Inr ([], rawURL))"

definition getScheme :: "string \<Rightarrow> error + (string \<times> string)" where
  "getScheme rawURL = getScheme_from rawURL [] rawURL"

definition validOptionalPort :: "string \<Rightarrow> bool" where
  "validOptionalPort port =
     (port = [] \<or> (hd port = CHR '':'' \<and> list_all is_digit (tl port)))"

definition validUserinfo :: "string \<Rightarrow> bool" where
  "validUserinfo s = list_all (\<lambda>r. is_alnum r \<or> r \<in> set (''-._:~!$&()*+,;=%@'' @ [CHR 0x27])) s"

definition parseHost :: "string \<Rightarrow> error + string" where
  "parseHost host =
     (if HasPrefix host ''['' then
        (case LastIndex host CHR '']'' of
           None \<Rightarrow> Inl UrlError
         | Some i \<Rightarrow>
             if \<not> validOptionalPort (drop (i + 1) host) then Inl UrlError
             else (case Index (take i host) ''%25'' of
                     None \<Rightarrow> unescape host encodeHost
                   | Some zone \<Rightarrow>
                       (case (unescape (take zone host) encodeHost,
                              unescape (drop zone (take i host)) encodeZone,
                              unescape (drop i host) encodeHost) of
                          (Inr host1, Inr host2, Inr host3) \<Rightarrow> Inr (host1 @ host2 @ host3)
                        | _ \<Rightarrow> Inl UrlError)))
      else (case LastIndex host CHR '':'' of
              None \<Rightarrow> unescape host encodeHost
            | Some i \<Rightarrow>
                if \<not> validOptionalPort (drop i host) then Inl UrlError
                else unescape host encodeHost))"

definition parseUserinfo :: "string \<Rightarrow> error + Userinfo" where
  "parseUserinfo userinfo =
     (if \<not> validUserinfo userinfo then Inl UrlError
      else if CHR '':'' \<notin> set userinfo then
        (case unescape userinfo encodeUserPassword of
           Inl e \<Rightarrow> Inl e
         | Inr u \<Rightarrow> Inr \<lparr>username = u, password = [], passwordSet = False\<rparr>)
      else
        (case Cut userinfo CHR '':'' of
           (name, pass, found) \<Rightarrow>
             (case (unescape name encodeUserPassword, unescape pass encodeUserPassword) of
                (Inr u, Inr pw) \<Rightarrow> Inr \<lparr>username = u, password = pw, passwordSet = True\<rparr>
              | _ \<Rightarrow> Inl UrlError)))"

text \<open>\<open>func parseAuthority(authority string) (user *Userinfo, host string, err error)\<close>\<close>

definition parseAuthority :: "string \<Rightarrow> error + (Userinfo option \<times> string)" where
  "parseAuthority authority =
     (case LastIndex authority CHR ''@'' of
        None \<Rightarrow>
          (case parseHost authority of Inl e \<Rightarrow> Inl e | Inr host \<Rightarrow> Inr (None, host))
      | Some i \<Rightarrow>
          (case parseHost (drop (i + 1) authority) of
             Inl e \<Rightarrow> Inl e
           | Inr host \<Rightarrow>
               (case parseUserinfo (take i authority) of
                  Inl e \<Rightarrow> Inl e
                | Inr user \<Rightarrow> Inr (Some user, host))))"

text \<open>\<open>func (u *URL) setPath(p string) error\<close> and \<open>setFragment\<close>\<close>

definition setPath :: "URL \<Rightarrow> string \<Rightarrow> error + URL" where
  "setPath u p =
     (case unescape p encodePath of
        Inl e \<Rightarrow> Inl e
      | Inr path \<Rightarrow>
          Inr (u\<lparr>Path := path, RawPath := (if p = escape path encodePath then [] else p)\<rparr>))"

definition setFragment :: "URL \<Rightarrow> string \<Rightarrow> error + URL" where
  "setFragment u f =
     (case unescape f encodeFragment of
        Inl e \<Rightarrow> Inl e
      | Inr frag \<Rightarrow>
          Inr (u\<lparr>Fragment := frag,
                 RawFragment := (if f = escape frag encodeFragment then [] else f)\<rparr>))"

text \<open>
  \<open>func parse(rawURL string, viaRequest bool) (*URL, error)\<close> with \<open>viaRequest = false\<close>,
  as \<open>url.Parse\<close> calls it.
\<close>

definition parse :: "string \<Rightarrow> error + URL" where
  "parse rawURL =
     (if stringContainsCTLByte rawURL then Inl UrlError
      else if rawURL = ''*'' then Inr (empty_URL\<lparr>Path := ''*''\<rparr>)
      else
        (case getScheme rawURL of
           Inl e \<Rightarrow> Inl e
         | Inr (scheme0, rest0) \<Rightarrow>
             let scheme = ToLower scheme0;
                 force = (HasSuffix rest0 ''?'' \<and> count_list rest0 CHR ''?'' = 1);
                 rest = (if force then butlast rest0 else fst (Cut rest0 CHR ''?''));
                 query = (if force then [] else fst (snd (Cut rest0 CHR ''?'')));
                 url = empty_URL\<lparr>Scheme := scheme, ForceQuery := force, RawQuery := query\<rparr>
             in if \<not> HasPrefix rest ''/'' \<and> scheme \<noteq> [] then Inr (url\<lparr>Opaque := rest\<rparr>)
                else if \<not> HasPrefix rest ''/'' \<and> CHR '':'' \<in> set (fst (Cut rest CHR ''/''))
                  then Inl UrlError
                else if (scheme \<noteq> [] \<or> \<not> HasPrefix rest ''///'') \<and> HasPrefix rest ''//'' then
                  (let authority0 = drop 2 rest;
                       authority = takeWhile (\<lambda>c. c \<noteq> CHR ''/'') authority0;
                       rest' = dropWhile (\<lambda>c. c \<noteq> CHR ''/'') authority0
                   in case parseAuthority authority of
                        Inl e \<Rightarrow> Inl e
                      | Inr (user, host) \<Rightarrow> setPath (url\<lparr>User := user, Host := host\<rparr>) rest')
                else setPath (url\<lparr>OmitHost := (scheme \<noteq> [] \<and> HasPrefix rest ''/'')\<rparr>) rest))"

text \<open>\<open>func Parse(rawURL string) (*URL, error)\<close>: the fragment is cut off first.\<close>

definition Parse :: "string \<Rightarrow> error + URL" where
  "Parse rawURL =
     (case Cut rawURL CHR ''#'' of
        (u, frag, found) \<Rightarrow>
          (case parse u of
             Inl e \<Rightarrow> Inl e
           | Inr url \<Rightarrow> if frag = [] then Inr url else setFragment url frag))"

definition EscapedPath :: "URL \<Rightarrow> string" where
  "EscapedPath u =
     (if RawPath u \<noteq> [] \<and> validEncoded (RawPath u) encodePath
         \<and> unescape (RawPath u) encodePath = Inr (Path u) then RawPath u
      else if Path u = ''*'' then ''*''
      else escape (Path u) encodePath)"

definition EscapedFragment :: "URL \<Rightarrow> string" where
  "EscapedFragment u =
     (if RawFragment u \<noteq> [] \<and> validEncoded (RawFragment u) encodeFragment
         \<and> unescape (RawFragment u) encodeFragment = Inr (Fragment u) then RawFragment u
      else escape (Fragment u) encodeFragment)"

text \<open>
  The loop of \<open>resolvePath\<close> over the elements of the path: \<open>str\<close> is the output after
  its leading slash, \<open>first\<close> says that no element has been written since the output was
  last empty.
\<close>

fun resolve_elems :: "string list \<Rightarrow> string \<Rightarrow> bool \<Rightarrow> string" where
  "resolve_elems [] str first = str"
| "resolve_elems (elem # es) str first =
     (if elem = ''.'' then resolve_elems es str False
      else if elem = ''..'' then
        (case LastIndex str CHR ''/'' of
           None \<Rightarrow> resolve_elems es [] True
         | Some index \<Rightarrow> resolve_elems es (take index str) first)
      else resolve_elems es (str @ (if first then [] else ''/'') @ elem) False)"

definition resolvePath :: "string \<Rightarrow> string \<Rightarrow> string" where
  "resolvePath base ref =
     (let full = (if ref = [] then base
                  else if hd ref \<noteq> CHR ''/'' then
                    (case LastIndex base CHR ''/'' of
                       None \<Rightarrow> ref
                     | Some i \<Rightarrow> take (i + 1) base @ ref)
                  else ref)
      in if full = [] then []
         else let elems = Split full CHR ''/'';
                  r = CHR ''/'' # resolve_elems elems [] True
                        @ (if last elems = ''.'' \<or> last elems = ''..'' then ''/'' else [])
              in if length r > 1 \<and> r ! 1 = CHR ''/'' then tl r else r)"

text \<open>\<open>func (u *URL) ResolveReference(ref *URL) *URL\<close>; it ignores the error of \<open>setPath\<close>.\<close>

definition setPath_ignoring :: "URL \<Rightarrow> string \<Rightarrow> URL" where
  "setPath_ignoring u p = (case setPath u p of Inl e \<Rightarrow> u | Inr u' \<Rightarrow> u')"

definition ResolveReference :: "URL \<Rightarrow> URL \<Rightarrow> URL" where
  "ResolveReference u ref =
     (let url = (if Scheme ref = [] then ref\<lparr>Scheme := Scheme u\<rparr> else ref)
      in if Scheme ref \<noteq> [] \<or> Host ref \<noteq> [] \<or> User ref \<noteq> None then
           setPath_ignoring url (resolvePath (EscapedPath ref) [])
         else if Opaque ref \<noteq> [] then url\<lparr>User := None, Host := [], Path := []\<rparr>
         else
           let inherit = (Path ref = [] \<and> \<not> ForceQuery ref \<and> RawQuery ref = []);
               url1 = (if inherit then url\<lparr>RawQuery := RawQuery u\<rparr> else url);
               url2 = (if inherit \<and> Fragment ref = []
                       then url1\<lparr>Fragment := Fragment u, RawFragment := RawFragment u\<rparr>
                       else url1)
           in if Path ref = [] \<and> Opaque u \<noteq> []
              then url2\<lparr>Opaque := Opaque u, User := None, Host := [], Path := []\<rparr>
              else setPath_ignoring (url2\<lparr>Host := Host u, User := User u\<rparr>)
                     (resolvePath (EscapedPath u) (EscapedPath ref)))"

definition Userinfo_String :: "Userinfo \<Rightarrow> string" where
  "Userinfo_String ui =
     escape (username ui) encodeUserPassword
     @ (if passwordSet ui then CHR '':'' # escape (password ui) encodeUserPassword else [])"

text \<open>\<open>func (u *URL) String() string\<close>\<close>

definition URL_String :: "URL \<Rightarrow> string" where
  "URL_String u =
     (let buf0 = (if Scheme u \<noteq> [] then Scheme u @ '':'' else []);
          buf1 =
            (if Opaque u \<noteq> [] then buf0 @ Opaque u
             else
               let auth =
                     (if Scheme u \<noteq> [] \<or> Host u \<noteq> [] \<or> User u \<noteq> None then
                        (if OmitHost u \<and> Host u = [] \<and> User u = None then []
                         else (if Host u \<noteq> [] \<or> Path u \<noteq> [] \<or> User u \<noteq> None then ''//'' else [])
                              @ (case User u of None \<Rightarrow> [] | Some ui \<Rightarrow> Userinfo_String ui @ ''@'')
                              @ (if Host u \<noteq> [] then escape (Host u) encodeHost else []))
                      else []);
                   path = EscapedPath u;
                   buf = buf0 @ auth
                         @ (if path \<noteq> [] \<and> hd path \<noteq> CHR ''/'' \<and> Host u \<noteq> [] then ''/'' else [])
               in buf @ (if buf = [] \<and> CHR '':'' \<in> set (fst (Cut path CHR ''/'')) then ''./'' else [])
                      @ path);
          buf2 = buf1 @ (if ForceQuery u \<or> RawQuery u \<noteq> [] then CHR ''?'' # RawQuery u else [])
      in buf2 @ (if Fragment u \<noteq> [] then CHR ''#'' # EscapedFragment u else []))"

section \<open>vaticanURL\<close>

definition vatican :: string where
  "vatican = ''https://www.vatican.va''"

definition archeng :: string where
  "archeng = ''/archive/ENG0015''"

text \<open>\<open>func vaticanURL(relativePath string) (string, error)\<close>\<close>

definition vaticanURL :: "string \<Rightarrow> error + string" where
  "vaticanURL relativePath =
     (if HasPrefix (ToLower relativePath) ''http'' then Inr relativePath
      else case Parse vatican of
             Inl err \<Rightarrow> Inl err
           | Inr u \<Rightarrow>
               (case Parse (path_Join [archeng, relativePath]) of
                  Inl err \<Rightarrow> Inl err
                | Inr rel \<Rightarrow> Inr (URL_String (ResolveReference u rel))))"

text \<open>\<open>var vaticanFirstPage, _ = vaticanURL("/__P2.HTM")\<close>: on an error the string is empty.\<close>

definition vaticanFirstPage :: string where
  "vaticanFirstPage = (case vaticanURL ''/__P2.HTM'' of Inl err \<Rightarrow> [] | Inr s \<Rightarrow> s)"

section \<open>urlToFilename\<close>

text \<open>The regular expression \<open>[<>:"|?*]\<close>, and \<open>ReplaceAllString(path, "")\<close> with it.\<close>

definition illegalChars :: string where
  "illegalChars = ''<>:|?*'' @ [CHR 0x22]"

definition remove_illegalChars :: "string \<Rightarrow> string" where
  "remove_illegalChars p = filter (\<lambda>c. c \<notin> set illegalChars) p"

text \<open>\<open>func urlToFilename(urlStr string) string\<close>; a URL that does not parse ends the process.\<close>

definition urlToFilename :: "string \<Rightarrow> error + string" where
  "urlToFilename urlStr =
     (case Parse urlStr of
        Inl err \<Rightarrow> Inl (Exit 1)
      | Inr u \<Rightarrow>
          (let path0 = Path u;
               path1 = TrimRight (ReplaceAll path0 CHR ''/'' CHR ''_'') ''_'';
               path2 = remove_illegalChars path1
           in Inr (filepath_Clean path2)))"

section \<open>The parsed document (goquery)\<close>

text \<open>
  The HTML parser and query library are outside the program. A parsed document is the
  node tree they hand back: text nodes, comments, and elements with a tag, attributes
  and children. A selection handed to an \<open>Each\<close> callback is one node.
\<close>

datatype node =
    TextNode string
  | CommentNode string
  | ElementNode string "(string \<times> string) list" "node list"

type_synonym document = "node list"

text \<open>\<open>Selection.Text()\<close>: the text nodes below the node, concatenated in document order.\<close>

fun node_Text :: "node \<Rightarrow> string" where
  "node_Text (TextNode s) = s"
| "node_Text (CommentNode s) = []"
| "node_Text (ElementNode tag attrs children) = concat (map node_Text children)"

text \<open>
  \<open>doc.Find(tag)\<close> for a tag selector: every element below the root with that tag, in
  document order (an element before its descendants, siblings left to right).
\<close>

fun matchAll :: "string \<Rightarrow> node \<Rightarrow> node list" where
  "matchAll sel (TextNode s) = []"
| "matchAll sel (CommentNode s) = []"
| "matchAll sel (ElementNode tag attrs children) =
     (if tag = sel then [ElementNode tag attrs children] else [])
     @ concat (map (matchAll sel) children)"

definition Find :: "document \<Rightarrow> string \<Rightarrow> node list" where
  "Find doc sel = concat (map (matchAll sel) doc)"

text \<open>\<open>Selection.Attr(name)\<close>: the first attribute of that name; \<open>("", false)\<close> without one.\<close>

fun Attr :: "node \<Rightarrow> string \<Rightarrow> string \<times> bool" where
  "Attr (ElementNode tag attrs children) name =
     (case map_of attrs name of None \<Rightarrow> ([], False) | Some v \<Rightarrow> (v, True))"
| "Attr n name = ([], False)"

section \<open>getNextLink\<close>

text \<open>
  \<open>doc.Find("a").Each(func(_ int, s *goquery.Selection) { if s.Text() == "Next" { next = s; return } })\<close>.
  The \<open>return\<close> leaves the callback only; \<open>Each\<close> goes on to the following anchors, and a
  later match assigns \<open>next\<close> again.
\<close>

definition nextLink_callback :: "node \<Rightarrow> node option \<Rightarrow> node option" where
  "nextLink_callback s next = (if node_Text s = ''Next'' then Some s else next)"

definition getNextLink :: "document \<Rightarrow> node option" where
  "getNextLink doc = fold nextLink_callback (Find doc ''a'') None"

section \<open>The paragraph loop of getCatechism\<close>

text \<open>
  The callback of \<open>doc.Find("p").Each\<close> in \<open>getCatechism\<close>, on the map \<open>paragraphs\<close>.
\<close>

definition paragraph_callback :: "node \<Rightarrow> (int \<rightharpoonup> Paragraph) \<Rightarrow> (int \<rightharpoonup> Paragraph)" where
  "paragraph_callback s paragraphs =
     (let (num, startsWithNumber) = extractNumber (node_Text s);
          isStoredInMap = (paragraphs num \<noteq> None)
      in if startsWithNumber \<and> \<not> isStoredInMap
         then paragraphs(num \<mapsto> \<lparr>Parent = None, Number = num, Text = node_Text s, References = []\<rparr>)
         else paragraphs)"

definition extractParagraphs :: "document \<Rightarrow> (int \<rightharpoonup> Paragraph) \<Rightarrow> (int \<rightharpoonup> Paragraph)" where
  "extractParagraphs doc paragraphs = fold paragraph_callback (Find doc ''p'') paragraphs"

section \<open>The world outside: network, cache directory, HTML parser\<close>

text \<open>
  What \<open>http.Get\<close> hands back: a response whose wire form (status line, headers, body)
  is the given bytes, or one whose body cannot be read to its end.
\<close>

datatype response = Response string | BrokenBody

text \<open>\<open>httputil.DumpResponse(res, true)\<close>\<close>

fun DumpResponse :: "response \<Rightarrow> error + string" where
  "DumpResponse (Response raw) = Inr raw"
| "DumpResponse BrokenBody = Inl IOError"

text \<open>
  A file of the cache directory as \<open>ioutil.ReadFile\<close> sees it: its content, or a read
  that fails (a directory, a file without read permission) after yielding some bytes.
\<close>

datatype cache_file = Content string | ReadFails string

text \<open>
  The state the program changes: the files by name, and the requests sent to the
  network, oldest first.
\<close>

record world =
  files :: "string \<rightharpoonup> cache_file"
  requests :: "string list"

text \<open>
  The behaviour of the surroundings, fixed during a run: the answer of the network to a
  GET, the names for which \<open>os.Stat\<close> fails with an error other than "does not exist",
  the names \<open>os.Create\<close> cannot create, the file that \<open>os.Create\<close> and
  \<open>file.Write(body)\<close> leave behind (its content is \<open>body\<close> unless the write fails; the
  result of the write is not looked at), and the HTML parser behind
  \<open>goquery.NewDocumentFromReader\<close>.
\<close>

record env =
  http_Get :: "string \<Rightarrow> error + response"
  stat_fails :: "string \<Rightarrow> bool"
  create_fails :: "string \<Rightarrow> bool"
  written_file :: "string \<Rightarrow> string \<Rightarrow> cache_file"
  NewDocumentFromReader :: "string \<Rightarrow> error + document"

section \<open>getOnce\<close>

text \<open>
  The end of \<open>getOnce\<close>: \<open>data, err := ioutil.ReadFile(filename)\<close>; on an error a message
  is printed and the function goes on to return a reader over \<open>data\<close>.
\<close>

definition readBack :: "world \<Rightarrow> string \<Rightarrow> string" where
  "readBack w filename =
     (case files w filename of
        None \<Rightarrow> []
      | Some (Content data) \<Rightarrow> data
      | Some (ReadFails data) \<Rightarrow> data)"

text \<open>\<open>func getOnce(urlStr string) io.Reader\<close>: the bytes of the reader, and the world after.\<close>

definition getOnce :: "env \<Rightarrow> world \<Rightarrow> string \<Rightarrow> error + (string \<times> world)" where
  "getOnce e w urlStr =
     (case urlToFilename urlStr of
        Inl err \<Rightarrow> Inl err
      | Inr name \<Rightarrow>
          let filename = ''cache/'' @ name
          in if stat_fails e filename then Inr (readBack w filename, w)
             else if files w filename = None then
               (let urlFullStr =
                      (if \<not> HasPrefix urlStr ''http''
                       then (case vaticanURL urlStr of Inl err \<Rightarrow> [] | Inr s \<Rightarrow> s)
                       else urlStr)
                in case http_Get e urlFullStr of
                     Inl err \<Rightarrow> Inl (Exit 1)
                   | Inr res \<Rightarrow>
                       (case DumpResponse res of
                          Inl err \<Rightarrow> Inl (Exit 1)
                        | Inr body \<Rightarrow>
                            if create_fails e filename then Inl (Exit 1)
                            else
                              let w' = w\<lparr>files := (files w)(filename \<mapsto>
                                                      written_file e filename body),
                                        requests := requests w @ [urlFullStr]\<rparr>
                              in Inr (readBack w' filename, w')))
             else Inr (readBack w filename, w))"

section \<open>getCatechism\<close>

text \<open>
  \<open>urlPath, _ := next.Attr("href"); urlStr, err = vaticanURL(urlPath)\<close>: on an error a
  message is printed and the loop goes on with the empty string.
\<close>

definition nextURL :: "node \<Rightarrow> string" where
  "nextURL next = (case vaticanURL (fst (Attr next ''href'')) of Inl err \<Rightarrow> [] | Inr s \<Rightarrow> s)"

text \<open>
  The \<open>for\<close> loop of \<open>getCatechism\<close>. It has no exit but the page without a next link, so
  it is a partial function: \<open>None\<close> is a run that never returns. \<open>visited\<close> lists the
  arguments of the calls of \<open>getOnce\<close> so far; the program does not keep it.
\<close>

partial_function (option) getCatechism_loop ::
  "env \<Rightarrow> string \<Rightarrow> (int \<rightharpoonup> Paragraph) \<Rightarrow> string list \<Rightarrow> world
   \<Rightarrow> (error + ((int \<rightharpoonup> Paragraph) \<times> string list \<times> world)) option" where
  "getCatechism_loop e urlStr paragraphs visited w =
     (case getOnce e w urlStr of
        Inl err \<Rightarrow> Some (Inl err)
      | Inr (body, w') \<Rightarrow>
          (case NewDocumentFromReader e body of
             Inl err \<Rightarrow> Some (Inl (Exit 1))
           | Inr doc \<Rightarrow>
               (case getNextLink doc of
                  None \<Rightarrow> Some (Inr (extractParagraphs doc paragraphs, visited @ [urlStr], w'))
                | Some next \<Rightarrow>
                    getCatechism_loop e (nextURL next) (extractParagraphs doc paragraphs)
                      (visited @ [urlStr]) w')))"

text \<open>\<open>func getCatechism() map[int]Paragraph\<close>\<close>

definition getCatechism :: "env \<Rightarrow> world \<Rightarrow> (error + (int \<rightharpoonup> Paragraph)) option" where
  "getCatechism e w =
     map_option (map_sum id fst) (getCatechism_loop e vaticanFirstPage Map.empty [] w)"

section \<open>main\<close>

text \<open>
  What \<open>main\<close> prints: one line, or one line for every entry of the map, in an order Go
  leaves open (the line of each key is given).
\<close>

datatype printed = Println string | PrintAll "int \<rightharpoonup> string"

text \<open>\<open>paragraphs[paragraphNumber]\<close>: the zero value when the key is missing.\<close>

definition map_index :: "(int \<rightharpoonup> Paragraph) \<Rightarrow> int \<Rightarrow> Paragraph" where
  "map_index paragraphs n = (case paragraphs n of None \<Rightarrow> zero_Paragraph | Some p \<Rightarrow> p)"

text \<open>
  \<open>func main()\<close> on \<open>os.Args\<close>. \<open>Inr\<close> is a run that reaches the end of \<open>main\<close> (exit
  status 0) with what it printed; \<open>Inl (Exit n)\<close> is \<open>os.Exit(n)\<close>.
\<close>

definition main :: "env \<Rightarrow> world \<Rightarrow> string list \<Rightarrow> (error + printed) option" where
  "main e w args =
     (case getCatechism e w of
        None \<Rightarrow> None
      | Some (Inl err) \<Rightarrow> Some (Inl err)
      | Some (Inr paragraphs) \<Rightarrow>
          Some (if length args > 1 then
                  (case Atoi (args ! 1) of
                     Inl err \<Rightarrow> Inl (Exit 1)
                   | Inr paragraphNumber \<Rightarrow>
                       Inr (Println (Text (map_index paragraphs paragraphNumber))))
                else Inr (PrintAll (\<lambda>n. map_option (\<lambda>p. ReplaceAll (Text p) (CHR 0x0A) CHR '' '')
                                             (paragraphs n)))))"

section \<open>Notions the statements use\<close>

text \<open>An anchor the walker takes for a next link: its text is exactly \<open>Next\<close>.\<close>

definition is_next :: "node \<Rightarrow> bool" where
  "is_next s = (node_Text s = ''Next'')"

text \<open>The run of decimal digits a text starts with, and the number a digit run denotes.\<close>

definition leading_digits :: "string \<Rightarrow> string" where
  "leading_digits t = takeWhile is_digit t"

fun decimal_le :: "string \<Rightarrow> int" where
  "decimal_le [] = 0"
| "decimal_le (c # cs) = digit_val c + 10 * decimal_le cs"

definition decimal :: "string \<Rightarrow> int" where
  "decimal ds = decimal_le (rev ds)"

text \<open>
  The candidate of a paragraph node: the pair the callback of \<open>getCatechism\<close> computes
  before it looks into the map, when \<open>startsWithNumber\<close> holds. The candidates of a page
  are those of its \<open>p\<close> elements, in document order.
\<close>

definition candidate :: "node \<Rightarrow> (int \<times> string) option" where
  "candidate s =
     (case extractNumber (node_Text s) of
        (num, startsWithNumber) \<Rightarrow> if startsWithNumber then Some (num, node_Text s) else None)"

definition candidates :: "document \<Rightarrow> (int \<times> string) list" where
  "candidates doc = List.map_filter candidate (Find doc ''p'')"

text \<open>What the callback does with a candidate: store it unless its number is a key already.\<close>

definition insert_first :: "int \<times> string \<Rightarrow> (int \<rightharpoonup> Paragraph) \<Rightarrow> (int \<rightharpoonup> Paragraph)" where
  "insert_first c paragraphs =
     (if paragraphs (fst c) = None
      then paragraphs(fst c \<mapsto> \<lparr>Parent = None, Number = fst c, Text = snd c, References = []\<rparr>)
      else paragraphs)"

text \<open>
  Key consistency of one entry, and of an index: the record under key \<open>n\<close> has number
  \<open>n\<close>, and its text starts with a digit run that denotes \<open>n\<close>.
\<close>

definition entry_ok :: "int \<Rightarrow> Paragraph \<Rightarrow> bool" where
  "entry_ok n p =
     (Number p = n \<and> leading_digits (Text p) \<noteq> [] \<and> decimal (leading_digits (Text p)) = n)"

definition index_ok :: "(int \<rightharpoonup> Paragraph) \<Rightarrow> bool" where
  "index_ok paragraphs = (\<forall>n p. paragraphs n = Some p \<longrightarrow> entry_ok n p)"

text \<open>
  A run of the walker along a list of pages, from world \<open>w\<close>: each address is fetched
  and parsed to its page; the anchor \<open>getNextLink\<close> returns on every page but the final
  one (the last anchor labelled \<open>Next\<close>) resolves to the address of the page after it;
  the final page has no anchor whose text is \<open>Next\<close>.
\<close>

fun chain :: "env \<Rightarrow> world \<Rightarrow> (string \<times> document) list \<Rightarrow> bool" where
  "chain e w [] = False"
| "chain e w ((u, d) # rest) =
     (case getOnce e w u of
        Inl err \<Rightarrow> False
      | Inr (body, w') \<Rightarrow>
          NewDocumentFromReader e body = Inr d
          \<and> (case rest of
                [] \<Rightarrow> filter is_next (Find d ''a'') = []
              | (u', d') # rest' \<Rightarrow>
                  filter is_next (Find d ''a'') \<noteq> []
                  \<and> nextURL (last (filter is_next (Find d ''a''))) = u'
                  \<and> chain e w' rest))"

text \<open>
  The steps of \<open>urlToFilename\<close> between the parsed path and \<open>filepath.Clean\<close>: slashes
  to underscores, trailing underscores off, illegal characters out.
\<close>

definition key_of_path :: "string \<Rightarrow> string" where
  "key_of_path p = remove_illegalChars (TrimRight (ReplaceAll p CHR ''/'' CHR ''_'') ''_'')"

text \<open>
  A series of calls of the cached fetch, one address after the other; the world is
  handed from each call to the next, and an \<open>os.Exit\<close> ends the series.
\<close>

fun fetches :: "env \<Rightarrow> world \<Rightarrow> string list \<Rightarrow> error + world" where
  "fetches e w [] = Inr w"
| "fetches e w (u # us) =
     (case getOnce e w u of Inl err \<Rightarrow> Inl err | Inr (data, w') \<Rightarrow> fetches e w' us)"

text \<open>The address \<open>getOnce\<close> requests from the network on a miss (\<open>urlFullStr\<close>).\<close>

definition fullURL :: "string \<Rightarrow> string" where
  "fullURL urlStr =
     (if \<not> HasPrefix urlStr ''http''
      then (case vaticanURL urlStr of Inl err \<Rightarrow> [] | Inr s \<Rightarrow> s)
      else urlStr)"

text \<open>
  The site and the cache deliver the bytes \<open>raw\<close> for the address \<open>u\<close>, seen from world
  \<open>w\<close>: the address has a cache key, \<open>os.Stat\<close> works on its cache file, and either the
  cache file holds \<open>raw\<close> and can be read, or there is no cache file, the network
  answers the request for the address with a response whose dump is \<open>raw\<close>, and the
  cache file can be created and written whole.
\<close>

definition delivered :: "env \<Rightarrow> world \<Rightarrow> string \<Rightarrow> string \<Rightarrow> bool" where
  "delivered e w u raw =
     (case urlToFilename u of
        Inl err \<Rightarrow> False
      | Inr name \<Rightarrow>
          \<not> stat_fails e (''cache/'' @ name)
          \<and> (files w (''cache/'' @ name) = Some (Content raw)
             \<or> (files w (''cache/'' @ name) = None
                \<and> (case http_Get e (fullURL u) of
                      Inl err \<Rightarrow> False
                    | Inr res \<Rightarrow> DumpResponse res = Inr raw)
                \<and> \<not> create_fails e (''cache/'' @ name)
                \<and> written_file e (''cache/'' @ name) raw = Content raw)))"

text \<open>
  The link structure of a chain of pages (address, bytes, parsed page): every anchor
  labelled \<open>Next\<close> on a page that is not the final one resolves to the address of the
  page after it, and there is at least one; the final page has no such anchor.
\<close>

fun linked :: "(string \<times> string \<times> document) list \<Rightarrow> bool" where
  "linked [] = False"
| "linked [(u, raw, d)] = (filter is_next (Find d ''a'') = [])"
| "linked ((u, raw, d) # (u', raw', d') # rest) =
     (filter is_next (Find d ''a'') \<noteq> []
      \<and> list_all (\<lambda>a. nextURL a = u') (filter is_next (Find d ''a''))
      \<and> linked ((u', raw', d') # rest))"

text \<open>
  A finite chain of pages with pairwise distinct cache keys (so no address occurs
  twice), each delivered by the site or the cache and parsed to its page.
\<close>

definition page_chain :: "env \<Rightarrow> world \<Rightarrow> (string \<times> string \<times> document) list \<Rightarrow> bool" where
  "page_chain e w pages =
     (linked pages
      \<and> distinct (map (\<lambda>p. urlToFilename (fst p)) pages)
      \<and> list_all (\<lambda>p. delivered e w (fst p) (fst (snd p))
                        \<and> NewDocumentFromReader e (fst (snd p)) = Inr (snd (snd p))) pages)"

text \<open>
  Relative paths of plain segments: a segment is not empty, not \<open>.\<close> and not \<open>..\<close>, and
  holds only letters, digits and \<open>- _ . ~\<close>. \<open>path_chars\<close> allows the slash as well.
\<close>

definition plain_char :: "char \<Rightarrow> bool" where
  "plain_char c = (is_alnum c \<or> c \<in> set ''-_.~'')"

definition plain_segment :: "string \<Rightarrow> bool" where
  "plain_segment s = (s \<noteq> [] \<and> s \<noteq> ''.'' \<and> s \<noteq> ''..'' \<and> list_all plain_char s)"

definition path_chars :: "string \<Rightarrow> bool" where
  "path_chars p = list_all (\<lambda>c. plain_char c \<or> c = CHR ''/'') p"

section \<open>A sample site\<close>

text \<open>
  Three pages in the shape of the source document, for evaluating the definitions: the
  first two carry a link labelled \<open>Next\<close>, the third does not.
\<close>

definition page1 :: document where
  "page1 =
     [ElementNode ''html'' []
        [ElementNode ''body'' []
           [ElementNode ''p'' [] [TextNode ''1 First''],
            ElementNode ''p'' [] [TextNode ''2 '', ElementNode ''i'' [] [TextNode ''Second'']],
            ElementNode ''a'' [(''href'', ''__P3.HTM'')] [TextNode ''Next'']]]]"

definition page2 :: document where
  "page2 =
     [ElementNode ''html'' []
        [ElementNode ''body'' []
           [ElementNode ''a'' [(''href'', ''__P2.HTM'')] [TextNode ''Previous''],
            ElementNode ''p'' [] [TextNode ''2 Again''],
            ElementNode ''p'' [] [TextNode ''3 Third''],
            ElementNode ''a'' [(''href'', ''/__P4.HTM'')] [TextNode ''Next'']]]]"

definition page3 :: document where
  "page3 =
     [ElementNode ''html'' []
        [ElementNode ''body'' []
           [ElementNode ''a'' [(''href'', ''__P3.HTM'')] [TextNode ''Previous''],
            ElementNode ''p'' [] [TextNode ''Not numbered''],
            ElementNode ''p'' [] [TextNode ''4 Fourth'']]]]"

definition url1 :: string where
  "url1 = ''https://www.vatican.va/archive/ENG0015/__P2.HTM''"

definition url2 :: string where
  "url2 = ''https://www.vatican.va/archive/ENG0015/__P3.HTM''"

definition url3 :: string where
  "url3 = ''https://www.vatican.va/archive/ENG0015/__P4.HTM''"

text \<open>The server answers the three addresses; the parser knows the three answers.\<close>

definition sample_env :: env where
  "sample_env =
     \<lparr>http_Get = (\<lambda>u. if u = url1 then Inr (Response ''raw page 1'')
                      else if u = url2 then Inr (Response ''raw page 2'')
                      else if u = url3 then Inr (Response ''raw page 3'')
                      else Inl IOError),
      stat_fails = (\<lambda>name. False),
      create_fails = (\<lambda>name. False),
      written_file = (\<lambda>name body. Content body),
      NewDocumentFromReader =
        (\<lambda>raw. if raw = ''raw page 1'' then Inr page1
                else if raw = ''raw page 2'' then Inr page2
                else if raw = ''raw page 3'' then Inr page3
                else Inr [])\<rparr>"

definition cold_world :: world where
  "cold_world = \<lparr>files = Map.empty, requests = []\<rparr>"

text \<open>
  A world in which the cache file of the first page exists and cannot be read, and
  surroundings in which no cache file can be created.
\<close>

definition unreadable_world :: world where
  "unreadable_world =
     \<lparr>files = [''cache/_archive_ENG0015___P2.HTM'' \<mapsto> ReadFails []], requests = []\<rparr>"

definition no_create_env :: env where
  "no_create_env = sample_env\<lparr>create_fails := (\<lambda>name. True)\<rparr>"

text \<open>The world after the three pages have been fetched from a cold cache.\<close>

definition warm_world :: world where
  "warm_world =
     \<lparr>files = [''cache/_archive_ENG0015___P2.HTM'' \<mapsto> Content ''raw page 1'',
               ''cache/_archive_ENG0015___P3.HTM'' \<mapsto> Content ''raw page 2'',
               ''cache/_archive_ENG0015___P4.HTM'' \<mapsto> Content ''raw page 3''],
      requests = [url1, url2, url3]\<rparr>"

text \<open>The three pages as a chain: address, bytes, parsed page.\<close>

definition sample_pages :: "(string \<times> string \<times> document) list" where
  "sample_pages =
     [(url1, ''raw page 1'', page1), (url2, ''raw page 2'', page2), (url3, ''raw page 3'', page3)]"

text \<open>
  A site of two pages whose addresses differ in the query only: the first page links
  to the second, the second has no link. Both addresses have the same cache key.
\<close>

definition pageA :: document where
  "pageA =
     [ElementNode ''body'' []
        [ElementNode ''p'' [] [TextNode ''1 First''],
         ElementNode ''a'' [(''href'', ''__P2.HTM?p=2'')] [TextNode ''Next'']]]"

definition pageB :: document where
  "pageB = [ElementNode ''body'' [] [ElementNode ''p'' [] [TextNode ''2 Second'']]]"

definition url1b :: string where
  "url1b = ''https://www.vatican.va/archive/ENG0015/__P2.HTM?p=2''"

definition collide_env :: env where
  "collide_env =
     \<lparr>http_Get = (\<lambda>u. if u = url1 then Inr (Response ''raw page A'')
                      else if u = url1b then Inr (Response ''raw page B'')
                      else Inl IOError),
      stat_fails = (\<lambda>name. False),
      create_fails = (\<lambda>name. False),
      written_file = (\<lambda>name body. Content body),
      NewDocumentFromReader =
        (\<lambda>raw. if raw = ''raw page A'' then Inr pageA
                else if raw = ''raw page B'' then Inr pageB
                else Inr [])\<rparr>"

section \<open>The next-page link\<close>

lemma fold_nextLink_callback:
  "fold nextLink_callback nodes nxt =
     (if filter is_next nodes = [] then nxt else Some (last (filter is_next nodes)))"
  by (induction nodes arbitrary: nxt) (auto simp: nextLink_callback_def is_next_def)

lemma getNextLink_last:
  "getNextLink doc =
     (if filter is_next (Find doc ''a'') = [] then None
      else Some (last (filter is_next (Find doc ''a''))))"
  by (simp add: getNextLink_def fold_nextLink_callback)

text \<open>
  C1. The claim asks for the first anchor labelled \<open>Next\<close> in document order. On a page
  with two such anchors, \<open>getNextLink\<close> returns the second one: the \<open>return\<close> in the
  callback does not stop \<open>Each\<close>, and the later match overwrites the earlier.
\<close>

theorem getNextLink_two_matches:
  "getNextLink
     [ElementNode ''p'' []
        [ElementNode ''a'' [(''href'', ''__P3.HTM'')] [TextNode ''Next''],
         TextNode '' - '',
         ElementNode ''a'' [(''href'', ''__P9.HTM'')] [TextNode ''Next'']]]
   = Some (ElementNode ''a'' [(''href'', ''__P9.HTM'')] [TextNode ''Next''])"
  by code_simp

section \<open>Insertion into the index\<close>

lemma paragraph_callback_apply:
  "paragraph_callback s paragraphs n =
     (case paragraphs n of
        Some p \<Rightarrow> Some p
      | None \<Rightarrow>
          if extractNumber (node_Text s) = (n, True)
          then Some \<lparr>Parent = None, Number = n, Text = node_Text s, References = []\<rparr>
          else None)"
  by (cases "extractNumber (node_Text s)") (auto simp: paragraph_callback_def split: option.splits)

lemma fold_paragraph_callback:
  "fold paragraph_callback nodes paragraphs n =
     (case paragraphs n of
        Some p \<Rightarrow> Some p
      | None \<Rightarrow>
          (case find (\<lambda>s. extractNumber (node_Text s) = (n, True)) nodes of
             None \<Rightarrow> None
           | Some s \<Rightarrow> Some \<lparr>Parent = None, Number = n, Text = node_Text s, References = []\<rparr>))"
proof (induction nodes arbitrary: paragraphs)
  case Nil
  then show ?case by (simp split: option.splits)
next
  case (Cons s nodes)
  have "fold paragraph_callback (s # nodes) paragraphs n =
        fold paragraph_callback nodes (paragraph_callback s paragraphs) n"
    by simp
  also have "\<dots> =
     (case paragraph_callback s paragraphs n of
        Some p \<Rightarrow> Some p
      | None \<Rightarrow>
          (case find (\<lambda>s. extractNumber (node_Text s) = (n, True)) nodes of
             None \<Rightarrow> None
           | Some s \<Rightarrow> Some \<lparr>Parent = None, Number = n, Text = node_Text s, References = []\<rparr>))"
    by (rule Cons.IH)
  also have "\<dots> =
     (case paragraphs n of
        Some p \<Rightarrow> Some p
      | None \<Rightarrow>
          (case find (\<lambda>s. extractNumber (node_Text s) = (n, True)) (s # nodes) of
             None \<Rightarrow> None
           | Some s \<Rightarrow> Some \<lparr>Parent = None, Number = n, Text = node_Text s, References = []\<rparr>))"
    unfolding paragraph_callback_apply [of s paragraphs n]
    by (simp split: option.splits)
  finally show ?case .
qed

lemma fold_extractParagraphs:
  "fold extractParagraphs docs paragraphs =
     fold paragraph_callback (concat (map (\<lambda>doc. Find doc ''p'') docs)) paragraphs"
  by (induction docs arbitrary: paragraphs) (simp_all add: extractParagraphs_def)

text \<open>
  C3. Insertion is first-write-wins. After the paragraph nodes of any sequence of pages
  have gone through the callback, the entry under a number \<open>n\<close> is the one the index
  held before, if it held one, and otherwise the record made from the first node, in
  crawl order, whose text yields the number \<open>n\<close>; every later node with that number
  changes nothing. Two paragraphs numbered 10 leave the text of the first in the index.
\<close>

theorem first_write_wins:
  "fold extractParagraphs docs paragraphs n =
     (case paragraphs n of
        Some p \<Rightarrow> Some p
      | None \<Rightarrow>
          (case find (\<lambda>s. extractNumber (node_Text s) = (n, True))
                  (concat (map (\<lambda>doc. Find doc ''p'') docs)) of
             None \<Rightarrow> None
           | Some s \<Rightarrow> Some \<lparr>Parent = None, Number = n, Text = node_Text s, References = []\<rparr>))
   \<and> extractParagraphs
        [ElementNode ''p'' [] [TextNode ''10 first text''],
         ElementNode ''p'' [] [TextNode ''10 second text'']] Map.empty 10
      = Some \<lparr>Parent = None, Number = 10, Text = ''10 first text'', References = []\<rparr>"
proof
  show "fold extractParagraphs docs paragraphs n =
     (case paragraphs n of
        Some p \<Rightarrow> Some p
      | None \<Rightarrow>
          (case find (\<lambda>s. extractNumber (node_Text s) = (n, True))
                  (concat (map (\<lambda>doc. Find doc ''p'') docs)) of
             None \<Rightarrow> None
           | Some s \<Rightarrow> Some \<lparr>Parent = None, Number = n, Text = node_Text s, References = []\<rparr>))"
    by (simp only: fold_extractParagraphs fold_paragraph_callback)
  show "extractParagraphs
        [ElementNode ''p'' [] [TextNode ''10 first text''],
         ElementNode ''p'' [] [TextNode ''10 second text'']] Map.empty 10
      = Some \<lparr>Parent = None, Number = 10, Text = ''10 first text'', References = []\<rparr>"
    by code_simp
qed

section \<open>The leading integer of a text\<close>

lemma is_digit_not_sign: "is_digit c \<Longrightarrow> c \<noteq> CHR ''-'' \<and> c \<noteq> CHR ''+''"
  by (auto simp: is_digit_def)

lemma digit_val_nonneg: "is_digit c \<Longrightarrow> 0 \<le> digit_val c"
  by (auto simp: is_digit_def digit_val_def)

lemma decimal_snoc: "decimal (ds @ [c]) = decimal ds * 10 + digit_val c"
  by (simp add: decimal_def)

lemma atoi_digits_decimal:
  "list_all is_digit ds \<Longrightarrow> atoi_digits ds n = Some (n * 10 ^ length ds + decimal ds)"
proof (induction ds arbitrary: n rule: rev_induct)
  case Nil
  then show ?case by (simp add: decimal_def)
next
  case (snoc c ds)
  have step: "atoi_digits (xs @ [c]) m = (case atoi_digits xs m of None \<Rightarrow> None
        | Some k \<Rightarrow> if is_digit c then Some (k * 10 + digit_val c) else None)" for xs m
    by (induction xs arbitrary: m) auto
  from snoc show ?case
    by (simp add: step decimal_snoc algebra_simps)
qed

lemma atoi_digits_None:
  "\<not> list_all is_digit ds \<Longrightarrow> atoi_digits ds n = None"
  by (induction ds arbitrary: n) auto

lemma leading_digits_all: "list_all is_digit (leading_digits t)"
  by (simp add: leading_digits_def list_all_iff) (meson set_takeWhileD)

lemma Atoi_digit_run:
  assumes "ds \<noteq> []" "list_all is_digit ds"
  shows "Atoi ds = (if decimal ds \<le> max_int then Inr (decimal ds) else Inl NumError)"
proof -
  from assms have "is_digit (hd ds)" by (cases ds) auto
  then have "hd ds \<noteq> CHR ''-''" "hd ds \<noteq> CHR ''+''"
    using is_digit_not_sign by auto
  then show ?thesis
    using assms by (simp add: Atoi_def atoi_digits_decimal)
qed

lemma extractNumber_eq:
  "extractNumber t =
     (if leading_digits t \<noteq> [] \<and> decimal (leading_digits t) \<le> max_int
      then (decimal (leading_digits t), True) else (0, False))"
proof (cases "leading_digits t = []")
  case True
  then show ?thesis
    by (simp add: extractNumber_def FindStringSubmatch_digits_def leading_digits_def)
next
  case False
  then show ?thesis
    using Atoi_digit_run [OF False leading_digits_all]
    by (simp add: extractNumber_def FindStringSubmatch_digits_def leading_digits_def Let_def)
qed

section \<open>Paragraph extraction\<close>

lemma candidate_eq:
  "candidate s =
     (if leading_digits (node_Text s) \<noteq> [] \<and> decimal (leading_digits (node_Text s)) \<le> max_int
      then Some (decimal (leading_digits (node_Text s)), node_Text s) else None)"
  by (simp add: candidate_def extractNumber_eq)

lemma paragraph_callback_candidate:
  "paragraph_callback s paragraphs =
     (case candidate s of None \<Rightarrow> paragraphs | Some c \<Rightarrow> insert_first c paragraphs)"
  by (cases "extractNumber (node_Text s)")
     (auto simp: paragraph_callback_def candidate_def insert_first_def)

lemma fold_callback_candidates:
  "fold paragraph_callback nodes paragraphs =
     fold insert_first (List.map_filter candidate nodes) paragraphs"
  by (induction nodes arbitrary: paragraphs)
     (auto simp: List.map_filter_simps paragraph_callback_candidate split: option.splits)

lemma map_filter_candidate:
  "List.map_filter candidate nodes =
     map (\<lambda>t. (decimal (leading_digits t), t))
       (filter (\<lambda>t. leading_digits t \<noteq> [] \<and> decimal (leading_digits t) \<le> max_int)
          (map node_Text nodes))"
  by (induction nodes) (auto simp: List.map_filter_simps candidate_eq)

text \<open>
  C5, as the code has it. The candidates of a page are, in document order, the \<open>p\<close>
  elements whose text starts with a digit run that fits a 64-bit \<open>int\<close>, each with
  the number its digit run denotes and its full text; a text without a leading digit,
  or with a digit run too large for \<open>int\<close>, is skipped. The paragraph loop stores
  exactly these candidates, first come first kept. The three nodes \<open>123 Some text\<close>,
  \<open>Not numbered\<close>, \<open>456 More text\<close> yield the two candidates 123 and 456 in that order.
\<close>

theorem extraction_in_document_order:
  "candidates doc =
     map (\<lambda>t. (decimal (leading_digits t), t))
       (filter (\<lambda>t. leading_digits t \<noteq> [] \<and> decimal (leading_digits t) \<le> max_int)
          (map node_Text (Find doc ''p'')))
   \<and> extractParagraphs doc paragraphs = fold insert_first (candidates doc) paragraphs
   \<and> candidates
        [ElementNode ''body'' []
           [ElementNode ''p'' [] [TextNode ''123 Some text''],
            ElementNode ''p'' [] [TextNode ''Not numbered''],
            ElementNode ''p'' [] [TextNode ''456 More text'']]]
      = [(123, ''123 Some text''), (456, ''456 More text'')]"
proof (intro conjI)
  show "candidates doc =
     map (\<lambda>t. (decimal (leading_digits t), t))
       (filter (\<lambda>t. leading_digits t \<noteq> [] \<and> decimal (leading_digits t) \<le> max_int)
          (map node_Text (Find doc ''p'')))"
    by (simp only: candidates_def map_filter_candidate)
  show "extractParagraphs doc paragraphs = fold insert_first (candidates doc) paragraphs"
    by (simp only: extractParagraphs_def candidates_def fold_callback_candidates)
  show "candidates
        [ElementNode ''body'' []
           [ElementNode ''p'' [] [TextNode ''123 Some text''],
            ElementNode ''p'' [] [TextNode ''Not numbered''],
            ElementNode ''p'' [] [TextNode ''456 More text'']]]
      = [(123, ''123 Some text''), (456, ''456 More text'')]"
    by code_simp
qed

text \<open>
  C5, as the claim states it, fails: a paragraph whose text starts with twenty digits
  starts with a digit run and yet yields no candidate, because \<open>strconv.Atoi\<close> reports
  a range error and \<open>extractNumber\<close> answers \<open>(0, false)\<close>.
\<close>

theorem overflowing_number_is_skipped:
  "leading_digits ''99999999999999999999 is too long'' = ''99999999999999999999''
   \<and> candidates [ElementNode ''p'' [] [TextNode ''99999999999999999999 is too long'']] = []"
  by code_simp

section \<open>Key consistency of the index\<close>

lemma extractNumber_True:
  "extractNumber t = (n, True) \<Longrightarrow> leading_digits t \<noteq> [] \<and> decimal (leading_digits t) = n"
  by (simp add: extractNumber_eq split: if_splits)

lemma index_ok_empty: "index_ok Map.empty"
  by (simp add: index_ok_def)

lemma index_ok_callback:
  assumes "index_ok paragraphs"
  shows "index_ok (paragraph_callback s paragraphs)"
  unfolding index_ok_def
proof (intro allI impI)
  fix n p
  assume "paragraph_callback s paragraphs n = Some p"
  then consider "paragraphs n = Some p"
    | "extractNumber (node_Text s) = (n, True)"
      "p = \<lparr>Parent = None, Number = n, Text = node_Text s, References = []\<rparr>"
    by (auto simp: paragraph_callback_apply split: option.splits if_splits)
  then show "entry_ok n p"
  proof cases
    case 1
    with assms show ?thesis by (simp add: index_ok_def)
  next
    case 2
    then show ?thesis
      using extractNumber_True [of "node_Text s" n] by (simp add: entry_ok_def)
  qed
qed

lemma index_ok_fold_callback:
  "index_ok paragraphs \<Longrightarrow> index_ok (fold paragraph_callback nodes paragraphs)"
  by (induction nodes arbitrary: paragraphs) (simp_all add: index_ok_callback)

lemma index_ok_extractParagraphs:
  "index_ok paragraphs \<Longrightarrow> index_ok (extractParagraphs doc paragraphs)"
  by (simp add: extractParagraphs_def index_ok_fold_callback)

lemma index_ok_loop:
  assumes "getCatechism_loop e urlStr paragraphs visited w = Some r"
  shows "index_ok paragraphs \<longrightarrow> (case r of Inl err \<Rightarrow> True | Inr (idx, vs, w') \<Rightarrow> index_ok idx)"
proof (rule getCatechism_loop.raw_induct
    [where P = "\<lambda>e u ps vs w r. index_ok ps \<longrightarrow> (case r of Inl err \<Rightarrow> True | Inr (idx, vs, w') \<Rightarrow> index_ok idx)",
     OF _ assms], goal_cases)
  case (1 loop e urlStr paragraphs visited w r)
  show ?case
  proof
    assume ok: "index_ok paragraphs"
    have ok': "index_ok (extractParagraphs doc paragraphs)" for doc
      by (rule index_ok_extractParagraphs [OF ok])
    show "case r of Inl err \<Rightarrow> True | Inr (idx, vs, w') \<Rightarrow> index_ok idx"
    proof (cases "getOnce e w urlStr")
      case (Inl err)
      with "1"(2) show ?thesis by auto
    next
      case (Inr bw)
      obtain body w' where bw: "bw = (body, w')" by (cases bw)
      show ?thesis
      proof (cases "NewDocumentFromReader e body")
        case (Inl err)
        with "1"(2) Inr bw show ?thesis by auto
      next
        case doc: (Inr doc)
        show ?thesis
        proof (cases "getNextLink doc")
          case None
          with "1"(2) Inr bw doc ok' show ?thesis by auto
        next
          case (Some nxt)
          with "1"(2) Inr bw doc
          have "loop e (nextURL nxt) (extractParagraphs doc paragraphs) (visited @ [urlStr]) w' = Some r"
            by simp
          from "1"(1) [OF this] ok' show ?thesis by simp
        qed
      qed
    qed
  qed
qed

lemma index_ok_getCatechism:
  "getCatechism e w = Some (Inr idx) \<Longrightarrow> index_ok idx"
proof -
  assume "getCatechism e w = Some (Inr idx)"
  then obtain r where r: "getCatechism_loop e vaticanFirstPage Map.empty [] w = Some r"
    and m: "map_sum id fst r = Inr idx"
    by (auto simp: getCatechism_def)
  from index_ok_loop [OF r] index_ok_empty m show ?thesis
    by (cases r) auto
qed

section \<open>Runs of the walker\<close>

lemma loop_follows_chain:
  "chain e w pages \<Longrightarrow>
   \<exists>w'. getCatechism_loop e (fst (hd pages)) paragraphs visited w =
     Some (Inr (fold extractParagraphs (map snd pages) paragraphs, visited @ map fst pages, w'))"
proof (induction pages arbitrary: w paragraphs visited)
  case Nil
  then show ?case by simp
next
  case (Cons page rest)
  obtain u d where page: "page = (u, d)" by (cases page)
  from Cons.prems obtain body w1 where
    get: "getOnce e w u = Inr (body, w1)" and
    doc: "NewDocumentFromReader e body = Inr d" and
    tail: "case rest of
             [] \<Rightarrow> filter is_next (Find d ''a'') = []
           | (u', d') # rest' \<Rightarrow>
               filter is_next (Find d ''a'') \<noteq> []
               \<and> nextURL (last (filter is_next (Find d ''a''))) = u'
               \<and> chain e w1 rest"
    by (auto simp: page split: sum.splits)
  show ?case
  proof (cases rest)
    case Nil
    with tail have "getNextLink d = None"
      by (simp add: getNextLink_last)
    then show ?thesis
      using get doc Nil page
      by (subst getCatechism_loop.simps) simp
  next
    case (Cons page' rest')
    obtain u' d' where page': "page' = (u', d')" by (cases page')
    from tail Cons page' have
      nxt: "getNextLink d = Some (last (filter is_next (Find d ''a'')))" and
      url: "nextURL (last (filter is_next (Find d ''a''))) = u'" and
      ch: "chain e w1 rest"
      by (simp_all add: getNextLink_last)
    from Cons.IH [OF ch, of "extractParagraphs d paragraphs" "visited @ [u]"]
    obtain w' where
      "getCatechism_loop e (fst (hd rest)) (extractParagraphs d paragraphs) (visited @ [u]) w1 =
         Some (Inr (fold extractParagraphs (map snd rest) (extractParagraphs d paragraphs),
                    (visited @ [u]) @ map fst rest, w'))"
      by blast
    then have "getCatechism_loop e u paragraphs visited w =
         Some (Inr (fold extractParagraphs (map snd (page # rest)) paragraphs,
                    visited @ map fst (page # rest), w'))"
      using get doc nxt url Cons page page'
      by (subst getCatechism_loop.simps) simp
    then show ?thesis
      using page by auto
  qed
qed

lemma sample_first: "vaticanFirstPage = url1"
  by code_simp

lemma sample_chain: "chain sample_env cold_world [(url1, page1), (url2, page2), (url3, page3)]"
  by code_simp

lemma sample_crawl:
  "getCatechism sample_env cold_world =
     Some (Inr (fold extractParagraphs [page1, page2, page3] Map.empty))"
proof -
  from loop_follows_chain [OF sample_chain, of Map.empty "[]"]
  show ?thesis
    by (auto simp: getCatechism_def sample_first)
qed

section \<open>Key consistency, for every index of the crawl\<close>

text \<open>
  C10. Every entry of an index the crawl produces sits under its own number, and its
  text starts with a digit run that denotes that number: the empty index has the
  property, every run of the paragraph callback keeps it, and so every index that
  \<open>getCatechism\<close> returns has it.
\<close>

theorem index_key_consistency:
  "index_ok Map.empty
   \<and> (index_ok paragraphs \<longrightarrow> index_ok (paragraph_callback s paragraphs))
   \<and> (getCatechism e w = Some (Inr idx) \<longrightarrow> index_ok idx)"
  using index_ok_empty index_ok_callback index_ok_getCatechism by blast

theorem index_key_consistency_witness:
  "index_ok (paragraph_callback (ElementNode ''p'' [] [TextNode ''7 Seventh'']) Map.empty)
   \<and> index_ok (fold extractParagraphs [page1, page2, page3] Map.empty)"
  using index_key_consistency
    [of Map.empty "ElementNode ''p'' [] [TextNode ''7 Seventh'']" sample_env cold_world
        "fold extractParagraphs [page1, page2, page3] Map.empty"]
    sample_crawl
  by simp

section \<open>Looking up a number that is not in the index\<close>

lemma sample_index:
  "map (map_option Text o fold extractParagraphs [page1, page2, page3] Map.empty) [1, 2, 3, 4, 99]
   = [Some ''1 First'', Some ''2 Second'', Some ''3 Third'', Some ''4 Fourth'', None]"
  by code_simp

text \<open>
  C9. A lookup of a number that is no key of the index is no failure: \<open>main\<close>, called
  with that number as its argument, prints the text of the zero-value paragraph, the
  empty string, and reaches its end instead of calling \<open>os.Exit\<close>.
\<close>

theorem lookup_miss_prints_empty:
  assumes "getCatechism e w = Some (Inr paragraphs)"
    and "Atoi arg = Inr n"
    and "paragraphs n = None"
  shows "main e w (prog # arg # rest) = Some (Inr (Println []))
         \<and> Text (map_index paragraphs n) = []"
  using assms by (simp add: main_def map_index_def zero_Paragraph_def)

lemma sample_Atoi: "Atoi ''99'' = Inr 99"
  by code_simp

theorem lookup_miss_prints_empty_witness:
  "main sample_env cold_world [''ccc'', ''99''] = Some (Inr (Println []))
   \<and> Text (map_index (fold extractParagraphs [page1, page2, page3] Map.empty) 99) = []"
proof -
  have "fold extractParagraphs [page1, page2, page3] Map.empty 99 = None"
    using sample_index by simp
  from lookup_miss_prints_empty [OF sample_crawl sample_Atoi this]
  show ?thesis .
qed

section \<open>The cached fetch\<close>

lemma getOnce_hit:
  assumes "urlToFilename urlStr = Inr name" and "files w (''cache/'' @ name) = Some cf"
  shows "getOnce e w urlStr = Inr (readBack w (''cache/'' @ name), w)"
  using assms by (simp add: getOnce_def Let_def)

lemma getOnce_stat_fails:
  assumes "urlToFilename urlStr = Inr name" and "stat_fails e (''cache/'' @ name)"
  shows "getOnce e w urlStr = Inr (readBack w (''cache/'' @ name), w)"
  using assms by (simp add: getOnce_def Let_def)

lemma getOnce_cases:
  assumes "getOnce e w urlStr = Inr (data, w')"
  obtains (same) name where "urlToFilename urlStr = Inr name" "w' = w"
      "data = readBack w (''cache/'' @ name)"
      "stat_fails e (''cache/'' @ name) \<or> files w (''cache/'' @ name) \<noteq> None"
  | (miss) name body full where "urlToFilename urlStr = Inr name"
      "\<not> stat_fails e (''cache/'' @ name)" "files w (''cache/'' @ name) = None"
      "w' = w\<lparr>files := (files w)(''cache/'' @ name \<mapsto> written_file e (''cache/'' @ name) body),
                requests := requests w @ [full]\<rparr>"
      "data = readBack w' (''cache/'' @ name)"
proof (cases "urlToFilename urlStr")
  case (Inl err)
  with assms show ?thesis by (simp add: getOnce_def)
next
  case (Inr name)
  show ?thesis
  proof (cases "stat_fails e (''cache/'' @ name) \<or> files w (''cache/'' @ name) \<noteq> None")
    case True
    with assms Inr have "w' = w" "data = readBack w (''cache/'' @ name)"
      by (auto simp: getOnce_def Let_def split: if_splits)
    with Inr True show ?thesis by (auto intro: same)
  next
    case False
    with assms Inr obtain body full where
      "w' = w\<lparr>files := (files w)(''cache/'' @ name \<mapsto> written_file e (''cache/'' @ name) body),
                requests := requests w @ [full]\<rparr>"
      "data = readBack w' (''cache/'' @ name)"
      by (auto simp: getOnce_def Let_def split: if_splits sum.splits)
    with Inr False show ?thesis by (auto intro: miss)
  qed
qed

lemma getOnce_keeps_files:
  assumes "getOnce e w urlStr = Inr (data, w')"
    and "files w f \<noteq> None \<or> stat_fails e f"
  shows "files w' f = files w f"
  using assms(1)
proof (cases rule: getOnce_cases)
  case (same name)
  then show ?thesis by simp
next
  case (miss name body full)
  with assms(2) have "f \<noteq> ''cache/'' @ name" by auto
  with miss show ?thesis by simp
qed

lemma getOnce_other_files:
  assumes "getOnce e w urlStr = Inr (data, w')" and "urlToFilename urlStr = Inr name"
    and "f \<noteq> ''cache/'' @ name"
  shows "files w' f = files w f"
  using assms(1)
proof (cases rule: getOnce_cases)
  case (same name')
  then show ?thesis by simp
next
  case (miss name' body full)
  with assms(2,3) show ?thesis by simp
qed

lemma fetches_keep_files:
  assumes "fetches e w urls = Inr w'" and "files w f \<noteq> None \<or> stat_fails e f"
  shows "files w' f = files w f"
  using assms
proof (induction urls arbitrary: w)
  case Nil
  then show ?case by simp
next
  case (Cons u us)
  from Cons.prems(1) obtain data w1 where
    g: "getOnce e w u = Inr (data, w1)" and rest: "fetches e w1 us = Inr w'"
    by (auto split: sum.splits)
  from getOnce_keeps_files [OF g Cons.prems(2)] have eq: "files w1 f = files w f" .
  with Cons.prems(2) have "files w1 f \<noteq> None \<or> stat_fails e f" by simp
  from Cons.IH [OF rest this] eq show ?case by simp
qed

text \<open>
  C4. Caching is idempotent. After a call of the cached fetch that returned, and after
  any further calls of the cached fetch for any addresses, a call with the same address
  returns the same bytes as the first and leaves the world as it is: no request is
  added to those sent to the network, no file changes, and the bytes are those read
  from the cache file of the address.
\<close>

theorem getOnce_idempotent:
  assumes "getOnce e w urlStr = Inr (data, w1)" and "fetches e w1 urls = Inr w2"
  shows "getOnce e w2 urlStr = Inr (data, w2)
         \<and> (\<exists>name. urlToFilename urlStr = Inr name \<and> data = readBack w2 (''cache/'' @ name))"
  using assms(1)
proof (cases rule: getOnce_cases)
  case (same name)
  let ?f = "''cache/'' @ name"
  from same have "files w1 ?f \<noteq> None \<or> stat_fails e ?f" by auto
  from fetches_keep_files [OF assms(2) this] have eq: "files w2 ?f = files w1 ?f" .
  with same have data: "data = readBack w2 ?f" by (simp add: readBack_def)
  from same(4) show ?thesis
  proof
    assume "stat_fails e ?f"
    from getOnce_stat_fails [OF same(1) this, of w2] data same(1) show ?thesis by simp
  next
    assume "files w ?f \<noteq> None"
    with eq same obtain cf where "files w2 ?f = Some cf" by auto
    from getOnce_hit [OF same(1) this, of e] data same(1) show ?thesis by simp
  qed
next
  case (miss name body full)
  let ?f = "''cache/'' @ name"
  from miss have present: "files w1 ?f = Some (written_file e ?f body)" by simp
  then have "files w1 ?f \<noteq> None \<or> stat_fails e ?f" by simp
  from fetches_keep_files [OF assms(2) this] have eq: "files w2 ?f = files w1 ?f" .
  with miss have data: "data = readBack w2 ?f" by (simp add: readBack_def)
  from eq present have "files w2 ?f = Some (written_file e ?f body)" by simp
  from getOnce_hit [OF miss(1) this, of e] data miss(1) show ?thesis by simp
qed

lemma sample_filename: "urlToFilename url1 = Inr ''_archive_ENG0015___P2.HTM''"
  by code_simp

lemma sample_getOnce:
  "getOnce sample_env cold_world url1 =
     Inr (''raw page 1'',
          \<lparr>files = [''cache/_archive_ENG0015___P2.HTM'' \<mapsto> Content ''raw page 1''],
           requests = [url1]\<rparr>)"
proof -
  have "HasPrefix url1 ''http''" by code_simp
  then show ?thesis
    by (simp add: getOnce_def Let_def sample_filename sample_env_def cold_world_def readBack_def)
qed

lemma sample_filenames:
  "urlToFilename url2 = Inr ''_archive_ENG0015___P3.HTM''"
  "urlToFilename url3 = Inr ''_archive_ENG0015___P4.HTM''"
  by code_simp+

lemma sample_http: "HasPrefix url1 ''http''" "HasPrefix url2 ''http''" "HasPrefix url3 ''http''"
  by code_simp+

lemma sample_distinct:
  "url2 \<noteq> url1" "url3 \<noteq> url1" "url3 \<noteq> url2"
  by code_simp+

lemma sample_fetches:
  "fetches sample_env
     \<lparr>files = [''cache/_archive_ENG0015___P2.HTM'' \<mapsto> Content ''raw page 1''],
      requests = [url1]\<rparr> [url2, url3] = Inr warm_world"
  using sample_http sample_distinct
  by (simp add: getOnce_def Let_def sample_filenames sample_env_def readBack_def warm_world_def)

theorem getOnce_idempotent_witness:
  "getOnce sample_env warm_world url1 = Inr (''raw page 1'', warm_world)
   \<and> requests warm_world = [url1, url2, url3]"
  using getOnce_idempotent [OF sample_getOnce sample_fetches]
  by (simp add: warm_world_def)

section \<open>Failures of the cache files\<close>

text \<open>
  C7. The claim asks that a cache file that cannot be read back ends the process with
  a non-zero status. With the cache file of the first page present and unreadable,
  \<open>getOnce\<close> returns a reader over no bytes and changes nothing: the branch for the
  error of \<open>ReadFile\<close> prints a message and has no \<open>os.Exit\<close>. The crawl parses the
  empty input, finds no link, and \<open>main\<close> prints an empty line and ends with status 0.
\<close>

theorem unreadable_cache_file_is_not_fatal:
  "getOnce sample_env unreadable_world url1 = Inr ([], unreadable_world)
   \<and> main sample_env unreadable_world [''ccc'', ''1''] = Some (Inr (Println []))"
proof -
  have one: "getOnce sample_env unreadable_world url1 = Inr ([], unreadable_world)"
    by (simp add: getOnce_def Let_def sample_filename sample_env_def unreadable_world_def readBack_def)
  have "getNextLink [] = None" by code_simp
  then have "getCatechism_loop sample_env url1 Map.empty [] unreadable_world =
        Some (Inr (extractParagraphs [] Map.empty, [url1], unreadable_world))"
    using one by (subst getCatechism_loop.simps) (simp add: sample_env_def)
  moreover have "extractParagraphs [] Map.empty = Map.empty"
    by (simp add: extractParagraphs_def Find_def)
  moreover have "Atoi ''1'' = Inr 1" by code_simp
  ultimately have "main sample_env unreadable_world [''ccc'', ''1''] = Some (Inr (Println []))"
    by (simp add: main_def getCatechism_def sample_first map_index_def zero_Paragraph_def)
  with one show ?thesis by simp
qed

text \<open>The other half of the claim holds: a cache file that cannot be created ends the process.\<close>

lemma create_failure_exits:
  "getOnce no_create_env cold_world url1 = Inl (Exit 1)"
proof -
  have "HasPrefix url1 ''http''" by code_simp
  then show ?thesis
    by (simp add: getOnce_def Let_def sample_filename sample_env_def no_create_env_def cold_world_def)
qed

section \<open>The pagination walker\<close>

lemma delivered_getOnce:
  assumes "delivered e w u raw"
  shows "\<exists>w' name. getOnce e w u = Inr (raw, w') \<and> urlToFilename u = Inr name"
proof -
  from assms obtain name where name: "urlToFilename u = Inr name"
    by (cases "urlToFilename u") (auto simp: delivered_def)
  let ?f = "''cache/'' @ name"
  from assms name have ns: "\<not> stat_fails e ?f" by (simp add: delivered_def)
  from assms name consider (hit) "files w ?f = Some (Content raw)"
    | (miss) res where "files w ?f = None" "http_Get e (fullURL u) = Inr res"
        "DumpResponse res = Inr raw" "\<not> create_fails e ?f" "written_file e ?f raw = Content raw"
    by (auto simp: delivered_def split: sum.splits)
  then show ?thesis
  proof cases
    case hit
    from getOnce_hit [OF name hit, of e] hit name show ?thesis
      by (auto simp: readBack_def)
  next
    case miss
    with name ns show ?thesis
      by (auto simp: getOnce_def Let_def fullURL_def readBack_def)
  qed
qed

lemma delivered_frame:
  assumes "delivered e w u raw" and "files w' (''cache/'' @ name) = files w (''cache/'' @ name)"
    and "urlToFilename u = Inr name"
  shows "delivered e w' u raw"
  using assms by (simp add: delivered_def)

lemma page_chain_chain:
  assumes "linked pages"
    and "distinct (map (\<lambda>p. urlToFilename (fst p)) pages)"
    and "list_all (\<lambda>p. delivered e w (fst p) (fst (snd p))
                        \<and> NewDocumentFromReader e (fst (snd p)) = Inr (snd (snd p))) pages"
  shows "chain e w (map (\<lambda>p. (fst p, snd (snd p))) pages)"
  using assms
proof (induction pages arbitrary: w rule: linked.induct)
  case 1
  then show ?case by simp
next
  case (2 u raw d)
  from "2.prems"(3) have del: "delivered e w u raw" and doc: "NewDocumentFromReader e raw = Inr d"
    by simp_all
  from delivered_getOnce [OF del] obtain w' where "getOnce e w u = Inr (raw, w')" by blast
  with doc "2.prems"(1) show ?case by simp
next
  case (3 u raw d u' raw' d' rest)
  let ?rest = "(u', raw', d') # rest"
  from "3.prems"(3) have del: "delivered e w u raw" and doc: "NewDocumentFromReader e raw = Inr d"
    by simp_all
  from delivered_getOnce [OF del] obtain w' name where
    g: "getOnce e w u = Inr (raw, w')" and name: "urlToFilename u = Inr name" by blast
  from "3.prems"(1) have
    ne: "filter is_next (Find d ''a'') \<noteq> []" and
    all: "list_all (\<lambda>a. nextURL a = u') (filter is_next (Find d ''a''))" and
    lk: "linked ?rest"
    by simp_all
  from ne have "last (filter is_next (Find d ''a'')) \<in> set (filter is_next (Find d ''a''))"
    by (rule last_in_set)
  with all have nx: "nextURL (last (filter is_next (Find d ''a''))) = u'"
    unfolding list_all_iff by blast
  from "3.prems"(2) have dist: "distinct (map (\<lambda>p. urlToFilename (fst p)) ?rest)"
    and notin: "urlToFilename u \<notin> (\<lambda>p. urlToFilename (fst p)) ` set ?rest"
    by simp_all
  from notin name have other: "\<forall>p\<in>set ?rest. urlToFilename (fst p) \<noteq> Inr name"
    by (metis image_eqI)
  have "list_all (\<lambda>p. delivered e w' (fst p) (fst (snd p))
                        \<and> NewDocumentFromReader e (fst (snd p)) = Inr (snd (snd p))) ?rest"
    unfolding list_all_iff
  proof
    fix p assume p: "p \<in> set ?rest"
    from "3.prems"(3) p have dv: "delivered e w (fst p) (fst (snd p))"
      and px: "NewDocumentFromReader e (fst (snd p)) = Inr (snd (snd p))"
      by (auto simp: list_all_iff)
    from dv obtain n where n: "urlToFilename (fst p) = Inr n"
      by (cases "urlToFilename (fst p)") (auto simp: delivered_def)
    from other p n have "n \<noteq> name" by auto
    then have "''cache/'' @ n \<noteq> ''cache/'' @ name" by simp
    from getOnce_other_files [OF g name this]
    have "files w' (''cache/'' @ n) = files w (''cache/'' @ n)" .
    from delivered_frame [OF dv this n] px
    show "delivered e w' (fst p) (fst (snd p))
          \<and> NewDocumentFromReader e (fst (snd p)) = Inr (snd (snd p))"
      by simp
  qed
  from "3.IH" [OF lk dist this] have "chain e w' (map (\<lambda>p. (fst p, snd (snd p))) ?rest)" .
  with g doc ne nx show ?case by simp
qed

lemma sample_page_chain: "page_chain sample_env cold_world sample_pages"
  by code_simp

text \<open>
  C6, as the code has it. For every finite chain of pages whose addresses have pairwise
  distinct cache keys, each delivered by the site or the cache, that starts at the first
  page and in which every \<open>Next\<close> anchor of a page but the last resolves to the address
  of the page after it and the last page has no \<open>Next\<close> anchor, the loop returns: it has
  called the fetch for the addresses of the chain, each once and in chain order, and
  the index it returns is what the paragraph loop makes of the pages in that order.
\<close>

theorem walker_visits_chain:
  assumes "page_chain e w pages" and "fst (hd pages) = vaticanFirstPage"
  shows "\<exists>w'. getCatechism_loop e vaticanFirstPage Map.empty [] w =
           Some (Inr (fold extractParagraphs (map (\<lambda>p. snd (snd p)) pages) Map.empty,
                      map fst pages, w'))
         \<and> getCatechism e w =
             Some (Inr (fold extractParagraphs (map (\<lambda>p. snd (snd p)) pages) Map.empty))
         \<and> distinct (map fst pages)"
proof -
  from assms(1) have "distinct (map (\<lambda>p. urlToFilename (fst p)) pages)"
    by (simp add: page_chain_def)
  moreover have "map (\<lambda>p. urlToFilename (fst p)) pages = map urlToFilename (map fst pages)"
    by simp
  ultimately have "distinct (map urlToFilename (map fst pages))"
    by (simp only:)
  then have once: "distinct (map fst pages)"
    using distinct_map [of urlToFilename "map fst pages"] by blast
  from assms(1) have ch: "chain e w (map (\<lambda>p. (fst p, snd (snd p))) pages)"
    by (simp add: page_chain_def page_chain_chain)
  from assms(1) have "pages \<noteq> []"
    by (auto simp: page_chain_def)
  with assms(2) have hd: "fst (hd (map (\<lambda>p. (fst p, snd (snd p))) pages)) = vaticanFirstPage"
    by (simp add: hd_map)
  from loop_follows_chain [OF ch, of Map.empty "[]"] hd
  obtain w' where
    "getCatechism_loop e vaticanFirstPage Map.empty [] w =
       Some (Inr (fold extractParagraphs (map (\<lambda>p. snd (snd p)) pages) Map.empty,
                  map fst pages, w'))"
    by (auto simp: comp_def)
  with once show ?thesis
    by (auto simp: getCatechism_def)
qed

theorem walker_visits_chain_witness:
  "\<exists>w'. getCatechism_loop sample_env vaticanFirstPage Map.empty [] cold_world =
           Some (Inr (fold extractParagraphs [page1, page2, page3] Map.empty,
                      [url1, url2, url3], w'))
         \<and> getCatechism sample_env cold_world =
             Some (Inr (fold extractParagraphs [page1, page2, page3] Map.empty))
         \<and> distinct [url1, url2, url3]"
  using walker_visits_chain [OF sample_page_chain] sample_first
  by (simp add: sample_pages_def)

lemma collide_hit:
  "getOnce collide_env
     \<lparr>files = [''cache/_archive_ENG0015___P2.HTM'' \<mapsto> Content ''raw page A''],
      requests = [url1]\<rparr> url1b =
   Inr (''raw page A'',
        \<lparr>files = [''cache/_archive_ENG0015___P2.HTM'' \<mapsto> Content ''raw page A''],
         requests = [url1]\<rparr>)"
proof -
  have "urlToFilename url1b = Inr ''_archive_ENG0015___P2.HTM''" by code_simp
  then show ?thesis
    by (simp add: getOnce_def Let_def collide_env_def readBack_def)
qed

lemma collide_first:
  "getOnce collide_env cold_world url1 =
   Inr (''raw page A'',
        \<lparr>files = [''cache/_archive_ENG0015___P2.HTM'' \<mapsto> Content ''raw page A''],
         requests = [url1]\<rparr>)"
  using sample_http(1)
  by (simp add: getOnce_def Let_def sample_filename collide_env_def cold_world_def readBack_def)

lemma collide_next:
  "getNextLink pageA = Some (ElementNode ''a'' [(''href'', ''__P2.HTM?p=2'')] [TextNode ''Next''])"
  "nextURL (ElementNode ''a'' [(''href'', ''__P2.HTM?p=2'')] [TextNode ''Next'']) = url1b"
  by code_simp+

lemma collide_loops:
  "getCatechism_loop collide_env url1b paragraphs visited
     \<lparr>files = [''cache/_archive_ENG0015___P2.HTM'' \<mapsto> Content ''raw page A''],
      requests = [url1]\<rparr> = None"
proof (rule ccontr)
  let ?w = "\<lparr>files = [''cache/_archive_ENG0015___P2.HTM'' \<mapsto> Content ''raw page A''],
             requests = [url1]\<rparr>"
  assume "getCatechism_loop collide_env url1b paragraphs visited ?w \<noteq> None"
  then obtain r where r: "getCatechism_loop collide_env url1b paragraphs visited ?w = Some r"
    by auto
  have "e = collide_env \<and> u = url1b \<and> w = ?w \<longrightarrow> False"
    if "getCatechism_loop e u ps vs w = Some y" for e u ps vs w y
  proof (rule getCatechism_loop.raw_induct
      [where P = "\<lambda>e u ps vs w y. e = collide_env \<and> u = url1b \<and> w = ?w \<longrightarrow> False",
       OF _ that], goal_cases)
    case (1 loop e u ps vs w y)
    show ?case
    proof
      assume eq: "e = collide_env \<and> u = url1b \<and> w = ?w"
      have "NewDocumentFromReader collide_env ''raw page A'' = Inr pageA"
        by (simp add: collide_env_def)
      with "1"(2) eq collide_hit collide_next
      have "loop collide_env url1b (extractParagraphs pageA ps) (vs @ [url1b]) ?w = Some y"
        by simp
      from "1"(1) [OF this] show False by simp
    qed
  qed
  from this [OF r] show False by simp
qed

text \<open>
  C6, as the claim states it, fails. The site of two pages is a finite chain without a
  cycle, and only its first page has a \<open>Next\<close> link; but the address of the second page
  has the cache key of the first, the fetch answers it from the cache file of the first
  page, and the walker reads the first page again and again: it never returns.
\<close>

theorem shared_cache_key_never_halts:
  "getCatechism collide_env cold_world = None
   \<and> vaticanFirstPage = url1 \<and> url1 \<noteq> url1b
   \<and> linked [(url1, ''raw page A'', pageA), (url1b, ''raw page B'', pageB)]
   \<and> http_Get collide_env url1 = Inr (Response ''raw page A'')
   \<and> http_Get collide_env url1b = Inr (Response ''raw page B'')
   \<and> NewDocumentFromReader collide_env ''raw page A'' = Inr pageA
   \<and> NewDocumentFromReader collide_env ''raw page B'' = Inr pageB
   \<and> urlToFilename url1 = urlToFilename url1b"
proof -
  have "NewDocumentFromReader collide_env ''raw page A'' = Inr pageA"
    by (simp add: collide_env_def)
  then have "getCatechism_loop collide_env url1 Map.empty [] cold_world = None"
    using collide_first collide_next collide_loops
    by (subst getCatechism_loop.simps) simp
  then have "getCatechism collide_env cold_world = None"
    by (simp add: getCatechism_def sample_first)
  moreover have "vaticanFirstPage = url1 \<and> url1 \<noteq> url1b
   \<and> linked [(url1, ''raw page A'', pageA), (url1b, ''raw page B'', pageB)]
   \<and> http_Get collide_env url1 = Inr (Response ''raw page A'')
   \<and> http_Get collide_env url1b = Inr (Response ''raw page B'')
   \<and> NewDocumentFromReader collide_env ''raw page A'' = Inr pageA
   \<and> NewDocumentFromReader collide_env ''raw page B'' = Inr pageB
   \<and> urlToFilename url1 = urlToFilename url1b"
    by code_simp
  ultimately show ?thesis by simp
qed

section \<open>URL resolution\<close>

lemma plain_char_facts:
  assumes "plain_char c"
  shows "c \<noteq> CHR ''/''" "c \<noteq> CHR ''%''" "c \<noteq> CHR ''#''" "c \<noteq> CHR ''?''"
    "\<not> shouldEscape c encodePath" "\<not> ((of_char c :: nat) < 32 \<or> of_char c = (127::nat))"
  using assms
  by (auto simp: plain_char_def is_alnum_def is_lower_def is_upper_def is_digit_def shouldEscape_def)

lemma Split_nonempty: "Split s sep \<noteq> []"
  by (induction s) (auto split: list.splits)

lemma Split_append_sep: "Split (xs @ sep # ys) sep = Split xs sep @ Split ys sep"
proof (induction xs)
  case Nil
  then show ?case by simp
next
  case (Cons c xs)
  then show ?case
    using Split_nonempty [of xs sep]
    by (cases "Split xs sep") (auto split: list.splits)
qed

lemma Split_absent: "sep \<notin> set s \<Longrightarrow> Split s sep = [s]"
  by (induction s) auto

lemma join_slash_Cons: "es \<noteq> [] \<Longrightarrow> join_slash (e # es) = e @ CHR ''/'' # join_slash es"
  by (cases es) auto

lemma Split_join_slash:
  assumes "es \<noteq> []" and "\<forall>e\<in>set es. CHR ''/'' \<notin> set e"
  shows "Split (join_slash es) CHR ''/'' = es"
  using assms
proof (induction es)
  case Nil
  then show ?case by simp
next
  case (Cons e es)
  show ?case
  proof (cases es)
    case Nil
    with Cons.prems show ?thesis by (simp add: Split_absent)
  next
    case (Cons e' es')
    with Cons.prems Cons.IH show ?thesis
      by (simp add: Split_append_sep Split_absent del: Split.simps)
  qed
qed

lemma plain_segment_no_slash: "plain_segment e \<Longrightarrow> CHR ''/'' \<notin> set e"
  using plain_char_facts(1) by (auto simp: plain_segment_def list_all_iff)

lemma clean_elems_plain:
  "list_all plain_segment es \<Longrightarrow> clean_elems rooted es out = out @ es"
  by (induction es arbitrary: out) (auto simp: plain_segment_def)

lemma resolve_elems_plain:
  "list_all plain_segment es \<Longrightarrow>
   resolve_elems es str False = str @ concat (map (\<lambda>e. CHR ''/'' # e) es)"
  by (induction es arbitrary: str) (auto simp: plain_segment_def)

lemma concat_slash: "es \<noteq> [] \<Longrightarrow> concat (map (\<lambda>e. CHR ''/'' # e) es) = CHR ''/'' # join_slash es"
proof (induction es)
  case Nil
  then show ?case by simp
next
  case (Cons e es)
  then show ?case by (cases es) auto
qed

lemma join_slash_chars:
  assumes "list_all plain_segment es"
  shows "\<forall>c\<in>set (join_slash es). plain_char c \<or> c = CHR ''/''"
  using assms
proof (induction es)
  case Nil
  then show ?case by simp
next
  case (Cons e es)
  then show ?case
    by (cases es) (auto simp: plain_segment_def list_all_iff)
qed

lemma join_slash_hd:
  assumes "list_all plain_segment es" and "es \<noteq> []"
  shows "join_slash es \<noteq> [] \<and> plain_char (hd (join_slash es))"
proof -
  from assms obtain e es' where es: "es = e # es'" by (cases es) auto
  with assms(1) have "e \<noteq> []" "plain_char (hd e)"
    by (auto simp: plain_segment_def list_all_iff)
  with es show ?thesis by (cases es') auto
qed

lemma path_char_facts:
  assumes "plain_char c \<or> c = CHR ''/''"
  shows "c \<noteq> CHR ''%''" "c \<noteq> CHR ''#''" "c \<noteq> CHR ''?''"
    "\<not> shouldEscape c encodePath" "\<not> ((of_char c :: nat) < 32 \<or> of_char c = (127::nat))"
proof -
  have slash: "\<not> shouldEscape CHR ''/'' encodePath"
    "\<not> ((of_char CHR ''/'' :: nat) < 32 \<or> of_char CHR ''/'' = (127::nat))"
    by code_simp+
  from assms show "c \<noteq> CHR ''%''" using plain_char_facts(2) by blast
  from assms show "c \<noteq> CHR ''#''" using plain_char_facts(3) by blast
  from assms show "c \<noteq> CHR ''?''" using plain_char_facts(4) by blast
  from assms slash(1) show "\<not> shouldEscape c encodePath" using plain_char_facts(5) by blast
  from assms slash(2) show "\<not> ((of_char c :: nat) < 32 \<or> of_char c = (127::nat))"
    using plain_char_facts(6) by blast
qed

lemma path_chars_absent:
  assumes "path_chars p"
  shows "CHR ''%'' \<notin> set p" "CHR ''#'' \<notin> set p" "CHR ''?'' \<notin> set p"
    "\<not> stringContainsCTLByte p" "\<forall>c\<in>set p. \<not> shouldEscape c encodePath"
proof -
  from assms have all: "\<forall>c\<in>set p. plain_char c \<or> c = CHR ''/''"
    by (simp add: path_chars_def list_all_iff)
  from all show "CHR ''%'' \<notin> set p" using path_char_facts(1) by blast
  from all show "CHR ''#'' \<notin> set p" using path_char_facts(2) by blast
  from all show "CHR ''?'' \<notin> set p" using path_char_facts(3) by blast
  from all show "\<forall>c\<in>set p. \<not> shouldEscape c encodePath" using path_char_facts(4) by blast
  from all have "\<forall>c\<in>set p. \<not> ((of_char c :: nat) < 32 \<or> of_char c = (127::nat))"
    using path_char_facts(5) by blast
  then show "\<not> stringContainsCTLByte p"
    unfolding stringContainsCTLByte_def list_ex_iff by blast
qed

lemma unescape_ok_no_percent: "CHR ''%'' \<notin> set s \<Longrightarrow> unescape_ok encodePath s"
  by (induction s) auto

lemma unescape_bytes_no_percent: "CHR ''%'' \<notin> set s \<Longrightarrow> unescape_bytes encodePath s = s"
  by (induction s) auto

lemma escape_unchanged: "\<forall>c\<in>set s. \<not> shouldEscape c mode \<Longrightarrow> escape s mode = s"
  by (induction s) (auto simp: escape_def escape_byte_def)

lemma setPath_plain:
  "path_chars p \<Longrightarrow> setPath u p = Inr (u\<lparr>Path := p, RawPath := []\<rparr>)"
  using path_chars_absent [of p]
  by (simp add: setPath_def unescape_def unescape_ok_no_percent unescape_bytes_no_percent
        escape_unchanged)

lemma Cut_absent: "sep \<notin> set s \<Longrightarrow> Cut s sep = (s, [], False)"
  by (simp add: Cut_def)

lemma HasSuffix_absent: "c \<notin> set s \<Longrightarrow> \<not> HasSuffix s [c]"
proof
  assume a: "c \<notin> set s" and h: "HasSuffix s [c]"
  then have "drop (length s - 1) s = [c]" by (simp add: HasSuffix_def)
  then have "c \<in> set (drop (length s - 1) s)" by simp
  with a show False by (meson in_set_dropD)
qed

lemma parse_plain:
  assumes "path_chars p" and "hd p = CHR ''/''" and "p \<noteq> []" and "\<not> HasPrefix p ''//''"
  shows "parse p = Inr (empty_URL\<lparr>Path := p\<rparr>)"
proof -
  from assms(2,3) obtain q where p: "p = CHR ''/'' # q" by (cases p) auto
  have gs: "getScheme p = Inr ([], p)"
    by (simp add: p getScheme_def is_lower_def is_upper_def is_digit_def)
  have star: "p \<noteq> ''*''" using p by simp
  have pre: "HasPrefix p ''/''" using p by (simp add: HasPrefix_def)
  note abs = path_chars_absent [OF assms(1)]
  from abs(3) have q: "\<not> HasSuffix p ''?''" "Cut p CHR ''?'' = (p, [], False)"
    by (simp_all add: HasSuffix_absent Cut_absent)
  show ?thesis
    using abs(4) star gs q pre assms(4) setPath_plain [OF assms(1)]
    by (simp add: parse_def Let_def ToLower_def empty_URL_def)
qed

lemma Parse_plain:
  assumes "path_chars p" and "hd p = CHR ''/''" and "p \<noteq> []" and "\<not> HasPrefix p ''//''"
  shows "Parse p = Inr (empty_URL\<lparr>Path := p\<rparr>)"
  using path_chars_absent(2) [OF assms(1)] parse_plain [OF assms]
  by (simp add: Parse_def Cut_absent)

lemma Parse_vatican:
  "Parse vatican = Inr (empty_URL\<lparr>Scheme := ''https'', Host := ''www.vatican.va''\<rparr>)"
  by code_simp

lemma rooted_path_facts:
  assumes "list_all plain_segment es" and "es \<noteq> []"
  shows "path_chars (CHR ''/'' # join_slash es)"
    and "\<not> HasPrefix (CHR ''/'' # join_slash es) ''//''"
    and "Split (CHR ''/'' # join_slash es) CHR ''/'' = [] # es"
proof -
  from join_slash_chars [OF assms(1)] show "path_chars (CHR ''/'' # join_slash es)"
    by (simp add: path_chars_def list_all_iff)
  from join_slash_hd [OF assms] plain_char_facts(1)
  have "join_slash es \<noteq> []" "hd (join_slash es) \<noteq> CHR ''/''" by auto
  then show "\<not> HasPrefix (CHR ''/'' # join_slash es) ''//''"
    by (cases "join_slash es") (auto simp: HasPrefix_def)
  from assms have "Split (join_slash es) CHR ''/'' = es"
    using plain_segment_no_slash by (intro Split_join_slash) (auto simp: list_all_iff)
  then show "Split (CHR ''/'' # join_slash es) CHR ''/'' = [] # es"
    by simp
qed

lemma resolvePath_plain:
  assumes "list_all plain_segment es" and "es \<noteq> []"
  shows "resolvePath [] (CHR ''/'' # join_slash es) = CHR ''/'' # join_slash es"
proof -
  from assms have "plain_segment (last es)"
    by (simp add: list_all_iff)
  then have last: "last es \<noteq> ''.''" "last es \<noteq> ''..''"
    by (auto simp: plain_segment_def)
  have re: "resolve_elems ([] # es) [] True = CHR ''/'' # join_slash es"
    using resolve_elems_plain [OF assms(1), of "[]"] concat_slash [OF assms(2)] by simp
  have "resolvePath [] (CHR ''/'' # join_slash es) =
        (let elems = [] # es;
             r = CHR ''/'' # resolve_elems elems [] True
                   @ (if last elems = ''.'' \<or> last elems = ''..'' then ''/'' else [])
         in if length r > 1 \<and> r ! 1 = CHR ''/'' then tl r else r)"
    unfolding resolvePath_def rooted_path_facts(3) [OF assms, symmetric]
    by (simp del: Split.simps)
  also have "\<dots> = CHR ''/'' # join_slash es"
    unfolding Let_def re using last assms(2) by simp
  finally show ?thesis .
qed

lemma vatican_resolve:
  assumes "list_all plain_segment es" and "es \<noteq> []"
  shows "URL_String (ResolveReference
            (empty_URL\<lparr>Scheme := ''https'', Host := ''www.vatican.va''\<rparr>)
            (empty_URL\<lparr>Path := CHR ''/'' # join_slash es\<rparr>))
         = ''https://www.vatican.va'' @ CHR ''/'' # join_slash es"
proof -
  let ?p = "CHR ''/'' # join_slash es"
  note pc = rooted_path_facts(1) [OF assms]
  have esc: "escape ?p encodePath = ?p"
    using path_chars_absent(5) [OF pc] by (rule escape_unchanged)
  have host: "escape ''www.vatican.va'' encodeHost = ''www.vatican.va''"
    by code_simp
  have star: "?p \<noteq> ''*''" using join_slash_hd [OF assms] by auto
  have colon: "CHR '':'' \<notin> set (fst (Cut ?p CHR ''/''))"
    by (simp add: Cut_def)
  have ep: "EscapedPath (empty_URL\<lparr>Path := ?p\<rparr>) = ?p"
    using esc star by (simp add: EscapedPath_def empty_URL_def)
  have eb: "EscapedPath (empty_URL\<lparr>Scheme := ''https'', Host := ''www.vatican.va''\<rparr>) = []"
    by (simp add: EscapedPath_def empty_URL_def escape_def)
  have rr: "ResolveReference
            (empty_URL\<lparr>Scheme := ''https'', Host := ''www.vatican.va''\<rparr>)
            (empty_URL\<lparr>Path := ?p\<rparr>)
          = empty_URL\<lparr>Scheme := ''https'', Host := ''www.vatican.va'', Path := ?p\<rparr>"
    unfolding ResolveReference_def Let_def ep eb resolvePath_plain [OF assms]
      setPath_ignoring_def setPath_plain [OF pc]
    by (simp add: empty_URL_def)
  have "EscapedPath (empty_URL\<lparr>Scheme := ''https'', Host := ''www.vatican.va'', Path := ?p\<rparr>) = ?p"
    using esc star by (simp add: EscapedPath_def empty_URL_def)
  then show ?thesis
    unfolding rr URL_String_def Let_def
    using host by (simp add: empty_URL_def)
qed

lemma archeng_segments: "list_all plain_segment [''archive'', ''ENG0015'']"
  by code_simp

lemma path_Join_plain:
  assumes "list_all plain_segment segs" and "segs \<noteq> []"
  shows "path_Join [archeng, join_slash segs] = CHR ''/'' # join_slash (''archive'' # ''ENG0015'' # segs)"
    and "path_Join [archeng, CHR ''/'' # join_slash segs]
         = CHR ''/'' # join_slash (''archive'' # ''ENG0015'' # segs)"
proof -
  from assms have sp: "Split (join_slash segs) CHR ''/'' = segs"
    using plain_segment_no_slash by (intro Split_join_slash) (auto simp: list_all_iff)
  have a: "archeng = ''/archive/ENG0015''" by (simp add: archeng_def)
  have sa: "Split ''/archive/ENG0015'' CHR ''/'' = [[], ''archive'', ''ENG0015'']"
    by code_simp
  from assms(1) archeng_segments have all: "list_all plain_segment (''archive'' # ''ENG0015'' # segs)"
    by simp
  have c1: "clean_elems True ([] # ''archive'' # ''ENG0015'' # segs) []
            = ''archive'' # ''ENG0015'' # segs"
    using clean_elems_plain [OF all, of True "[]"] by simp
  have c2: "clean_elems True ([] # ''archive'' # ''ENG0015'' # [] # segs) []
            = ''archive'' # ''ENG0015'' # segs"
    using clean_elems_plain [OF assms(1), of True "[''archive'', ''ENG0015'']"] by simp
  have s1: "Split (''/archive/ENG0015'' @ CHR ''/'' # join_slash segs) CHR ''/''
            = [] # ''archive'' # ''ENG0015'' # segs"
    unfolding Split_append_sep sa sp by simp
  have s2: "Split (''/archive/ENG0015'' @ CHR ''/'' # CHR ''/'' # join_slash segs) CHR ''/''
            = [] # ''archive'' # ''ENG0015'' # [] # segs"
  proof -
    have "Split (CHR ''/'' # join_slash segs) CHR ''/'' = [] # segs"
      using sp by simp
    then show ?thesis
      unfolding Split_append_sep sa by simp
  qed
  have j1: "path_Join [archeng, join_slash segs]
            = path_Clean (''/archive/ENG0015'' @ CHR ''/'' # join_slash segs)"
    by (simp add: path_Join_def a)
  have j2: "path_Join [archeng, CHR ''/'' # join_slash segs]
            = path_Clean (''/archive/ENG0015'' @ CHR ''/'' # CHR ''/'' # join_slash segs)"
    by (simp add: path_Join_def a)
  have cl: "path_Clean p = CHR ''/'' # join_slash (clean_elems True (Split p CHR ''/'') [])"
    if "p \<noteq> []" "hd p = CHR ''/''" for p
    using that by (simp add: path_Clean_def Let_def)
  show "path_Join [archeng, join_slash segs] = CHR ''/'' # join_slash (''archive'' # ''ENG0015'' # segs)"
    unfolding j1 by (subst cl) (simp_all only: s1 c1, simp_all)
  show "path_Join [archeng, CHR ''/'' # join_slash segs]
         = CHR ''/'' # join_slash (''archive'' # ''ENG0015'' # segs)"
    unfolding j2 by (subst cl) (simp_all only: s2 c2, simp_all)
qed

lemma vaticanURL_plain:
  assumes "list_all plain_segment segs" and "segs \<noteq> []"
    and "\<not> HasPrefix (ToLower rel) ''http''"
    and "rel = join_slash segs \<or> rel = CHR ''/'' # join_slash segs"
  shows "vaticanURL rel = Inr (vatican @ archeng @ CHR ''/'' # join_slash segs)"
proof -
  let ?es = "''archive'' # ''ENG0015'' # segs"
  from assms(1) archeng_segments have all: "list_all plain_segment ?es" by simp
  have ne: "?es \<noteq> []" by simp
  from assms(4) path_Join_plain [OF assms(1,2)]
  have pj: "path_Join [archeng, rel] = CHR ''/'' # join_slash ?es" by auto
  have pp: "Parse (CHR ''/'' # join_slash ?es) = Inr (empty_URL\<lparr>Path := CHR ''/'' # join_slash ?es\<rparr>)"
    using rooted_path_facts(1,2) [OF all ne] by (intro Parse_plain) simp_all
  have js: "join_slash ?es = ''archive/ENG0015/'' @ join_slash segs"
    using assms(2) by (cases segs) auto
  have "vaticanURL rel = Inr (''https://www.vatican.va'' @ CHR ''/'' # join_slash ?es)"
    using assms(3)
    unfolding vaticanURL_def pj pp Parse_vatican vatican_resolve [OF all ne, symmetric]
    by simp
  then show ?thesis
    unfolding js by (simp add: vatican_def archeng_def)
qed

text \<open>
  C2, as the code has it. \<open>vaticanURL\<close> joins an input that does not start with \<open>http\<close>
  onto the archive root: a path of plain segments, with or without a slash in front,
  resolves to the host, the archive root, a slash and that path. So \<open>/_INDEX.HTM\<close>
  gives the address of the index page under the root, and
  \<open>/archive/ENG0015/_INDEX.HTM\<close>, which names the root already, gets the root a second
  time. An input whose first four bytes are \<open>http\<close>, in any letter case, is returned
  unchanged.
\<close>

theorem vaticanURL_joins_archive_root:
  "(list_all plain_segment segs \<and> segs \<noteq> [] \<longrightarrow>
      vaticanURL (CHR ''/'' # join_slash segs) =
        Inr (vatican @ archeng @ CHR ''/'' # join_slash segs)
      \<and> (\<not> HasPrefix (ToLower (join_slash segs)) ''http'' \<longrightarrow>
           vaticanURL (join_slash segs) = Inr (vatican @ archeng @ CHR ''/'' # join_slash segs)))
   \<and> vaticanURL ''/_INDEX.HTM'' = Inr ''https://www.vatican.va/archive/ENG0015/_INDEX.HTM''
   \<and> vaticanURL ''/archive/ENG0015/_INDEX.HTM'' =
       Inr ''https://www.vatican.va/archive/ENG0015/archive/ENG0015/_INDEX.HTM''
   \<and> (HasPrefix (ToLower relativePath) ''http'' \<longrightarrow> vaticanURL relativePath = Inr relativePath)"
proof (intro conjI impI)
  assume "list_all plain_segment segs \<and> segs \<noteq> []"
  then have segs: "list_all plain_segment segs" "segs \<noteq> []" by simp_all
  have "\<not> HasPrefix (ToLower (CHR ''/'' # join_slash segs)) ''http''"
    by (simp add: HasPrefix_def ToLower_def lower_char_def is_upper_def)
  from vaticanURL_plain [OF segs this]
  show "vaticanURL (CHR ''/'' # join_slash segs) =
        Inr (vatican @ archeng @ CHR ''/'' # join_slash segs)"
    by simp
  assume "\<not> HasPrefix (ToLower (join_slash segs)) ''http''"
  from vaticanURL_plain [OF segs this]
  show "vaticanURL (join_slash segs) = Inr (vatican @ archeng @ CHR ''/'' # join_slash segs)"
    by simp
next
  show "vaticanURL ''/_INDEX.HTM'' = Inr ''https://www.vatican.va/archive/ENG0015/_INDEX.HTM''"
    by code_simp
  show "vaticanURL ''/archive/ENG0015/_INDEX.HTM'' =
       Inr ''https://www.vatican.va/archive/ENG0015/archive/ENG0015/_INDEX.HTM''"
    by code_simp
next
  assume "HasPrefix (ToLower relativePath) ''http''"
  then show "vaticanURL relativePath = Inr relativePath"
    by (simp add: vaticanURL_def)
qed

theorem vaticanURL_joins_archive_root_witness:
  "vaticanURL ''/archive/ENG0015/_INDEX.HTM'' =
     Inr ''https://www.vatican.va/archive/ENG0015/archive/ENG0015/_INDEX.HTM''
   \<and> vaticanURL ''__P3.HTM'' = Inr ''https://www.vatican.va/archive/ENG0015/__P3.HTM''
   \<and> vaticanURL ''https://example.com/x'' = Inr ''https://example.com/x''
   \<and> vaticanURL ''HTTP://Example.com/X'' = Inr ''HTTP://Example.com/X''"
proof -
  have s1: "list_all plain_segment [''archive'', ''ENG0015'', ''_INDEX.HTM'']
            \<and> [''archive'', ''ENG0015'', ''_INDEX.HTM''] \<noteq> []"
    by code_simp
  have s2: "list_all plain_segment [''__P3.HTM''] \<and> [''__P3.HTM''] \<noteq> []"
    by code_simp
  have n2: "\<not> HasPrefix (ToLower (join_slash [''__P3.HTM''])) ''http''"
    by code_simp
  have a: "HasPrefix (ToLower ''https://example.com/x'') ''http''" by code_simp
  have b: "HasPrefix (ToLower ''HTTP://Example.com/X'') ''http''" by code_simp
  from vaticanURL_joins_archive_root [of "[''archive'', ''ENG0015'', ''_INDEX.HTM'']"] s1
  have "vaticanURL ''/archive/ENG0015/_INDEX.HTM'' =
     Inr ''https://www.vatican.va/archive/ENG0015/archive/ENG0015/_INDEX.HTM''"
    by (simp add: vatican_def archeng_def)
  moreover from vaticanURL_joins_archive_root [of "[''__P3.HTM'']"] s2 n2
  have "vaticanURL ''__P3.HTM'' = Inr ''https://www.vatican.va/archive/ENG0015/__P3.HTM''"
    by (simp add: vatican_def archeng_def)
  moreover from vaticanURL_joins_archive_root [of _ "''https://example.com/x''"] a
  have "vaticanURL ''https://example.com/x'' = Inr ''https://example.com/x''"
    by blast
  moreover from vaticanURL_joins_archive_root [of _ "''HTTP://Example.com/X''"] b
  have "vaticanURL ''HTTP://Example.com/X'' = Inr ''HTTP://Example.com/X''"
    by blast
  ultimately show ?thesis by simp
qed

text \<open>
  C2, as the claim states it, fails in both halves: \<open>/archive/ENG0015/_INDEX.HTM\<close> does
  not resolve to \<open>https://www.vatican.va/archive/ENG0015/_INDEX.HTM\<close>, and the input
  \<open>ftp://example.com/x\<close>, which carries a scheme, is not returned unchanged but joined onto
  the archive root.
\<close>

theorem vaticanURL_test_vector_fails:
  "vaticanURL ''/archive/ENG0015/_INDEX.HTM''
     \<noteq> Inr ''https://www.vatican.va/archive/ENG0015/_INDEX.HTM''
   \<and> vaticanURL ''ftp://example.com/x''
     = Inr ''https://www.vatican.va/archive/ENG0015/ftp:/example.com/x''
   \<and> vaticanURL ''ftp://example.com/x'' \<noteq> Inr ''ftp://example.com/x''"
  by code_simp

section \<open>The cache key\<close>

lemma path_Clean_no_slash:
  assumes "CHR ''/'' \<notin> set q"
  shows "path_Clean q = (if q = [] then ''.'' else q)"
proof (cases q)
  case Nil
  then show ?thesis by (simp add: path_Clean_def)
next
  case (Cons c cs)
  with assms have "hd q \<noteq> CHR ''/''" by auto
  with Cons show ?thesis
    using Split_absent [OF assms]
    by (auto simp: path_Clean_def Let_def)
qed

lemma TrimRight_Cons:
  "TrimRight (c # s) cs = (if \<forall>x\<in>set (c # s). x \<in> set cs then [] else c # TrimRight s cs)"
  by (auto simp: TrimRight_def dropWhile_append)

lemma set_TrimRight: "set (TrimRight s cs) \<subseteq> set s"
  by (auto simp: TrimRight_def dest: set_dropWhileD)

lemma key_of_path_no_slash: "CHR ''/'' \<notin> set (key_of_path p)"
proof -
  have "CHR ''/'' \<notin> set (ReplaceAll p CHR ''/'' CHR ''_'')"
    by (auto simp: ReplaceAll_def)
  with set_TrimRight [of "ReplaceAll p CHR ''/'' CHR ''_''" "''_''"]
  show ?thesis
    by (auto simp: key_of_path_def remove_illegalChars_def)
qed

lemma key_of_path_legal: "set (key_of_path p) \<inter> set illegalChars = {}"
  by (auto simp: key_of_path_def remove_illegalChars_def)

lemma key_of_path_rooted:
  assumes "p = [] \<or> hd p = CHR ''/''"
  shows "key_of_path p = [] \<or> hd (key_of_path p) = CHR ''_''"
proof (cases p)
  case Nil
  then show ?thesis
    by (simp add: key_of_path_def ReplaceAll_def TrimRight_def remove_illegalChars_def)
next
  case (Cons c cs)
  with assms have c: "c = CHR ''/''" by simp
  have "CHR ''_'' \<notin> set illegalChars"
    by (simp add: illegalChars_def)
  then show ?thesis
    unfolding key_of_path_def Cons c ReplaceAll_def remove_illegalChars_def
    by (simp add: TrimRight_Cons)
qed

lemma urlToFilename_key:
  "Parse urlStr = Inr u \<Longrightarrow>
   urlToFilename urlStr =
     Inr (if key_of_path (Path u) = [] then ''.'' else key_of_path (Path u))"
  by (simp add: urlToFilename_def filepath_Clean_def key_of_path_def [symmetric]
        path_Clean_no_slash [OF key_of_path_no_slash])

lemma setPath_rooted:
  assumes "setPath u p = Inr u'" and "p = [] \<or> hd p = CHR ''/''"
  shows "Path u' = [] \<or> hd (Path u') = CHR ''/''"
proof -
  from assms(1) have "Path u' = unescape_bytes encodePath p"
    by (auto simp: setPath_def unescape_def split: if_splits)
  with assms(2) show ?thesis
    by (cases p) auto
qed

lemma setPath_Scheme: "setPath u p = Inr u' \<Longrightarrow> Scheme u' = Scheme u"
  by (auto simp: setPath_def split: sum.splits)

lemma HasPrefix_slash: "HasPrefix s ''/'' \<Longrightarrow> hd s = CHR ''/''"
  by (cases s) (auto simp: HasPrefix_def)

lemma dropWhile_not_slash:
  "dropWhile (\<lambda>c. c \<noteq> CHR ''/'') s = [] \<or> hd (dropWhile (\<lambda>c. c \<noteq> CHR ''/'') s) = CHR ''/''"
  using hd_dropWhile [of "\<lambda>c. c \<noteq> CHR ''/''" s] by auto

lemma parse_rooted:
  assumes "parse rawURL = Inr u" and "Scheme u \<noteq> []"
  shows "Path u = [] \<or> hd (Path u) = CHR ''/''"
proof -
  from assms have star: "rawURL \<noteq> ''*''"
    by (auto simp: parse_def empty_URL_def split: if_splits)
  from assms(1) have nctl: "\<not> stringContainsCTLByte rawURL"
    by (auto simp: parse_def split: if_splits)
  from assms(1) star obtain scheme0 rest0 where gs: "getScheme rawURL = Inr (scheme0, rest0)"
    by (cases "getScheme rawURL") (auto simp: parse_def split: if_splits)
  define force where "force = (HasSuffix rest0 ''?'' \<and> count_list rest0 CHR ''?'' = 1)"
  define rest where "rest = (if force then butlast rest0 else fst (Cut rest0 CHR ''?''))"
  define query where "query = (if force then [] else fst (snd (Cut rest0 CHR ''?'')))"
  define url where "url = empty_URL\<lparr>Scheme := ToLower scheme0, ForceQuery := force, RawQuery := query\<rparr>"
  have eq: "parse rawURL =
     (if \<not> HasPrefix rest ''/'' \<and> ToLower scheme0 \<noteq> [] then Inr (url\<lparr>Opaque := rest\<rparr>)
      else if \<not> HasPrefix rest ''/'' \<and> CHR '':'' \<in> set (fst (Cut rest CHR ''/''))
        then Inl UrlError
      else if (ToLower scheme0 \<noteq> [] \<or> \<not> HasPrefix rest ''///'') \<and> HasPrefix rest ''//'' then
        (case parseAuthority (takeWhile (\<lambda>c. c \<noteq> CHR ''/'') (drop 2 rest)) of
           Inl e \<Rightarrow> Inl e
         | Inr (user, host) \<Rightarrow>
             setPath (url\<lparr>User := user, Host := host\<rparr>)
               (dropWhile (\<lambda>c. c \<noteq> CHR ''/'') (drop 2 rest)))
      else setPath (url\<lparr>OmitHost := (ToLower scheme0 \<noteq> [] \<and> HasPrefix rest ''/'')\<rparr>) rest)"
    using nctl star gs
    unfolding force_def rest_def query_def url_def
    by (simp only: parse_def Let_def if_False sum.case prod.case)
  consider (opaque) "\<not> HasPrefix rest ''/''" "ToLower scheme0 \<noteq> []"
    | (auth) "\<not> (\<not> HasPrefix rest ''/'' \<and> ToLower scheme0 \<noteq> [])"
        "(ToLower scheme0 \<noteq> [] \<or> \<not> HasPrefix rest ''///'') \<and> HasPrefix rest ''//''"
    | (plain) "\<not> (\<not> HasPrefix rest ''/'' \<and> ToLower scheme0 \<noteq> [])"
        "\<not> ((ToLower scheme0 \<noteq> [] \<or> \<not> HasPrefix rest ''///'') \<and> HasPrefix rest ''//'')"
    by blast
  then show ?thesis
  proof cases
    case opaque
    with eq assms(1) have "u = url\<lparr>Opaque := rest\<rparr>" by simp
    then show ?thesis by (simp add: url_def empty_URL_def)
  next
    case auth
    with eq assms(1) obtain user host where
      "setPath (url\<lparr>User := user, Host := host\<rparr>)
         (dropWhile (\<lambda>c. c \<noteq> CHR ''/'') (drop 2 rest)) = Inr u"
      by (auto split: if_splits sum.splits)
    from setPath_rooted [OF this dropWhile_not_slash] show ?thesis .
  next
    case plain
    with eq assms(1) have sp:
      "setPath (url\<lparr>OmitHost := (ToLower scheme0 \<noteq> [] \<and> HasPrefix rest ''/'')\<rparr>) rest = Inr u"
      by (auto split: if_splits)
    from setPath_Scheme [OF sp] assms(2) have "ToLower scheme0 \<noteq> []"
      by (simp add: url_def)
    with plain(1) have "HasPrefix rest ''/''" by simp
    then have "hd rest = CHR ''/''" by (rule HasPrefix_slash)
    with setPath_rooted [OF sp] show ?thesis by simp
  qed
qed

lemma Parse_rooted:
  assumes "Parse urlStr = Inr u" and "Scheme u \<noteq> []"
  shows "Path u = [] \<or> hd (Path u) = CHR ''/''"
proof -
  obtain u0 frag found where cut: "Cut urlStr CHR ''#'' = (u0, frag, found)"
    by (cases "Cut urlStr CHR ''#''") auto
  with assms(1) obtain url where p: "parse u0 = Inr url"
    and u: "u = url \<or> setFragment url frag = Inr u"
    by (auto simp: Parse_def split: sum.splits if_splits)
  from u have "Path u = Path url \<and> Scheme u = Scheme url"
    by (auto simp: setFragment_def split: sum.splits)
  with parse_rooted [OF p] assms(2) show ?thesis by simp
qed

text \<open>
  What holds of the key of every string that \<open>url.Parse\<close> accepts: it is not empty and
  holds no slash and none of the characters \<open>< > : " | ? *\<close>; for an absolute URL (one
  with a scheme) it is \<open>.\<close> or begins with an underscore.
\<close>

lemma cache_key_chars:
  assumes "Parse urlStr = Inr u"
  shows "\<exists>k. urlToFilename urlStr = Inr k
           \<and> k \<noteq> [] \<and> CHR ''/'' \<notin> set k \<and> set k \<inter> set illegalChars = {}
           \<and> (Scheme u \<noteq> [] \<longrightarrow> k = ''.'' \<or> hd k = CHR ''_'')"
proof (cases "key_of_path (Path u) = []")
  case True
  with urlToFilename_key [OF assms] have "urlToFilename urlStr = Inr ''.''" by simp
  then show ?thesis by (simp add: illegalChars_def)
next
  case False
  let ?k = "key_of_path (Path u)"
  from False urlToFilename_key [OF assms] have k: "urlToFilename urlStr = Inr ?k" by simp
  have abs: "hd ?k = CHR ''_''" if "Scheme u \<noteq> []"
    using key_of_path_rooted [OF Parse_rooted [OF assms that]] False by simp
  from k False abs key_of_path_no_slash [of "Path u"] key_of_path_legal [of "Path u"]
  show ?thesis by blast
qed

text \<open>
  C8. The claim asks that the cache key be one valid file name without a
  path-traversal segment. The code does not give that: for the absolute URL of the
  site's root the key is \<open>.\<close>, the cache directory itself; for the relative reference
  \<open>../\<close> it is \<open>..\<close>, the directory above; and an escaped zero byte in the path of a
  URL is a zero byte in the key. \<open>filepath.Clean\<close>, called to make the path safe for
  the filesystem, maps the empty string to \<open>.\<close> and keeps \<open>..\<close> and the zero byte.
\<close>

theorem cache_key_unsafe_examples:
  "urlToFilename ''https://www.vatican.va/'' = Inr ''.''
   \<and> urlToFilename ''../'' = Inr ''..''
   \<and> urlToFilename ''https://h/a%00b'' = Inr [CHR ''_'', CHR ''a'', CHR 0x00, CHR ''b'']"
  by code_simp

end
